theory Spec2Isabelle
  imports Main "HOL-Library.AList" "HOL-Library.Char_ord" "HOL-Library.List_Lexorder"
begin

section \<open>JavaScript values used by the two plugins\<close>

text \<open>
  A JavaScript object used as a dictionary is an association list in the enumeration
  order of its own keys: \<open>map_of\<close> reads a key, \<open>AList.update\<close> is the assignment
  \<open>obj[k] = v\<close> (an existing key keeps its place, a new key goes last) and
  \<open>AList.delete\<close> is \<open>delete obj[k]\<close>. Keys are plain strings: the special place
  JavaScript gives to array-index keys in the enumeration order and the names every
  object inherits from \<open>Object.prototype\<close> are outside this model.

  A JavaScript string is a \<open>string\<close>, one \<open>char\<close> for one code unit below 256.
  \<open>is_space\<close> is the class \<open>\s\<close> (and the set \<open>trim\<close> strips) on that range,
  \<open>is_line_terminator\<close> the characters the regular-expression dot refuses.
\<close>

definition is_space :: "char \<Rightarrow> bool" where
  "is_space c = (c \<in> set [CHR 0x09, CHR 0x0A, CHR 0x0B, CHR 0x0C, CHR 0x0D, CHR 0x20, CHR 0xA0])"

definition is_line_terminator :: "char \<Rightarrow> bool" where
  "is_line_terminator c = (c \<in> set [CHR 0x0A, CHR 0x0D])"

definition is_word :: "char \<Rightarrow> bool" where
  "is_word c =
     (let n = (of_char c :: nat)
      in (48 \<le> n \<and> n \<le> 57) \<or> (65 \<le> n \<and> n \<le> 90) \<or> n = 95 \<or> (97 \<le> n \<and> n \<le> 122))"

definition toLowerCase_char :: "char \<Rightarrow> char" where
  "toLowerCase_char c =
     (let n = (of_char c :: nat) in if 65 \<le> n \<and> n \<le> 90 then char_of (n + 32) else c)"

definition trim :: "string \<Rightarrow> string" where
  "trim s = rev (dropWhile is_space (rev (dropWhile is_space s)))"

definition startsWith_underscore :: "string \<Rightarrow> bool" where
  "startsWith_underscore s = (case s of [] \<Rightarrow> False | c # _ \<Rightarrow> c = CHR ''_'')"

text \<open>\<open>content.split('\n')\<close>: the pieces between line feeds, one more than there are line feeds.\<close>

fun split_nl :: "string \<Rightarrow> string list" where
  "split_nl [] = [[]]"
| "split_nl (c # cs) =
     (if c = CHR 0x0A then [] # split_nl cs
      else (case split_nl cs of [] \<Rightarrow> [[c]] | l # ls \<Rightarrow> (c # l) # ls))"

text \<open>\<open>lines[i] || ''\<close>: a read past the end is \<open>undefined\<close>, which \<open>||\<close> turns into the empty string.\<close>

definition line_at :: "string list \<Rightarrow> nat \<Rightarrow> string" where
  "line_at ls i = (if i < length ls then ls ! i else [])"

text \<open>\<open>[...new Set(xs)]\<close>: the first occurrence of every element, in order.\<close>

fun dedupe :: "'a list \<Rightarrow> 'a list \<Rightarrow> 'a list" where
  "dedupe seen [] = seen"
| "dedupe seen (x # xs) = dedupe (if x \<in> set seen then seen else seen @ [x]) xs"

section \<open>The index document (obsidian-metadata-api, src/database.ts)\<close>

record task_entry =
  task_text :: string
  completed :: bool
  line :: nat

record heading_entry =
  level :: int
  heading_text :: string

record code_block =
  language :: string
  count :: nat

datatype fmvalue = FmStr string | FmArr "string list" | FmOther string

record note_entry =
  path :: string
  basename :: string
  extension :: string
  fsize :: int
  ctime :: int
  mtime :: int
  tags :: "string list"
  outlinks :: "string list"
  embeds :: "string list"
  frontmatter :: "(string \<times> fmvalue) list"
  headings :: "heading_entry list"
  tasks :: "task_entry list"
  codeBlocks :: "code_block list"
  folder :: string

record link_entry =
  link_outlinks :: "string list"
  link_backlinks :: "string list"

record stats_rec =
  totalNotes :: nat
  totalTags :: nat
  totalLinks :: nat
  totalEmbeds :: nat
  totalTasks :: nat
  totalIncompleteTasks :: nat
  lastUpdated :: string

record index_db =
  db_notes :: "(string \<times> note_entry) list"
  db_tags :: "(string \<times> nat) list"
  db_links :: "(string \<times> link_entry) list"
  db_folders :: "(string \<times> nat) list"
  stats :: stats_rec

text \<open>The document \<open>initializeJsonDb\<close> and \<open>rebuildDatabase\<close> write; \<open>now\<close> is \<open>new Date().toISOString()\<close>.\<close>

definition defaultData :: "string \<Rightarrow> index_db" where
  "defaultData now =
     \<lparr>db_notes = [], db_tags = [], db_links = [], db_folders = [],
      stats = \<lparr>totalNotes = 0, totalTags = 0, totalLinks = 0, totalEmbeds = 0,
               totalTasks = 0, totalIncompleteTasks = 0, lastUpdated = now\<rparr>\<rparr>"

text \<open>
  The backing file, after \<open>initDatabase\<close> has created it. \<open>persisted\<close> is its
  content, \<open>written\<close> every document \<open>writeDb\<close> has stored, oldest first, so that
  the documents a reader can see between two writes of one operation stay visible.
  Operations run one after the other, each to its end.
\<close>

record store =
  persisted :: index_db
  written :: "index_db list"

definition readDb :: "store \<Rightarrow> index_db" where
  "readDb s = persisted s"

definition writeDb :: "index_db \<Rightarrow> store \<Rightarrow> store" where
  "writeDb d s = \<lparr>persisted = d, written = written s @ [d]\<rparr>"

subsection \<open>What the host hands to \<open>updateNote\<close>\<close>

record tfile =
  f_path :: string
  f_basename :: string
  f_extension :: string
  stat_size :: int
  stat_ctime :: int
  stat_mtime :: int
  parent_path :: "string option"

record heading_cache =
  h_level :: int
  h_heading :: string

record list_item =
  li_task :: "string option"
  li_line :: nat

record section_cache =
  s_type :: string
  s_line :: nat

record cached_metadata =
  m_tags :: "string list option"
  m_frontmatter :: "(string \<times> fmvalue) list option"
  m_links :: "string list option"
  m_embeds :: "string list option"
  m_headings :: "heading_cache list option"
  m_listItems :: "list_item list option"
  m_sections :: "section_cache list option"

record app =
  vault_read :: "tfile \<Rightarrow> string"
  getFirstLinkpathDest :: "string \<Rightarrow> string \<Rightarrow> string option"
  getMarkdownFiles :: "tfile list"
  getFileCache :: "tfile \<Rightarrow> cached_metadata option"

text \<open>\<open>metadata?.field\<close>: \<open>undefined\<close> when the metadata is \<open>null\<close> or the field is missing.\<close>

definition opt_field :: "('m \<Rightarrow> 'a option) \<Rightarrow> 'm option \<Rightarrow> 'a option" where
  "opt_field f md = (case md of None \<Rightarrow> None | Some m \<Rightarrow> f m)"

subsection \<open>Extraction\<close>

definition extract_tags :: "cached_metadata option \<Rightarrow> string list" where
  "extract_tags md =
     (let inline = (case opt_field m_tags md of None \<Rightarrow> [] | Some ts \<Rightarrow> map (drop 1) ts);
          fm = (case opt_field m_frontmatter md of
                  None \<Rightarrow> []
                | Some fmv \<Rightarrow>
                    (case map_of fmv ''tags'' of
                       Some (FmArr xs) \<Rightarrow> xs
                     | Some (FmStr s) \<Rightarrow> (if s = [] then [] else [s])
                     | _ \<Rightarrow> []))
      in inline @ fm)"

text \<open>Links and embeds: each reference is resolved from the note's path; the unresolved ones are skipped.\<close>

definition resolve_all :: "app \<Rightarrow> string \<Rightarrow> string list option \<Rightarrow> string list" where
  "resolve_all a src refs =
     (case refs of
        None \<Rightarrow> []
      | Some ls \<Rightarrow>
          foldl (\<lambda>acc l. case getFirstLinkpathDest a l src of
                            None \<Rightarrow> acc
                          | Some p \<Rightarrow> acc @ [p]) [] ls)"

text \<open>
  \<open>lineText.match(/^[\s\t]*-\s*\[[^\]]\]\s*(.*)$/)\<close>: \<open>None\<close> when the line does not
  match, otherwise the captured group. Each starred class is followed by a character
  outside the class, so the greedy match is the longest run; the group must reach the
  end of the string and the dot takes no line terminator.
\<close>

definition taskMatch :: "string \<Rightarrow> string option" where
  "taskMatch lineText =
     (case dropWhile is_space lineText of
        [] \<Rightarrow> None
      | c # r1 \<Rightarrow>
          if c \<noteq> CHR ''-'' then None
          else (case dropWhile is_space r1 of
                  b # m # e # r2 \<Rightarrow>
                    if b = CHR ''['' \<and> m \<noteq> CHR '']'' \<and> e = CHR '']''
                    then (let g = dropWhile is_space r2
                          in if list_ex is_line_terminator g then None else Some g)
                    else None
                | _ \<Rightarrow> None))"

definition task_of_item :: "string list \<Rightarrow> list_item \<Rightarrow> task_entry" where
  "task_of_item ls item =
     (let lineText = line_at ls (li_line item);
          taskText = (case taskMatch lineText of Some g \<Rightarrow> trim g | None \<Rightarrow> trim lineText)
      in \<lparr>task_text = taskText, completed = (li_task item \<noteq> Some '' ''), line = li_line item + 1\<rparr>)"

definition extract_tasks :: "string list option \<Rightarrow> list_item list option \<Rightarrow> task_entry list" where
  "extract_tasks lns items =
     (case (items, lns) of
        (Some its, Some ls) \<Rightarrow>
          foldl (\<lambda>acc item. if li_task item \<noteq> None then acc @ [task_of_item ls item] else acc) [] its
      | _ \<Rightarrow> [])"

text \<open>\<open>startLine.match(/^```(\w+)/)\<close> and \<open>toLowerCase\<close>; no language token gives \<open>unknown\<close>.\<close>

definition fence_language :: "string \<Rightarrow> string" where
  "fence_language startLine =
     (if take 3 startLine = ''```'' \<and> takeWhile is_word (drop 3 startLine) \<noteq> []
      then map toLowerCase_char (takeWhile is_word (drop 3 startLine))
      else ''unknown'')"

definition bump :: "string \<Rightarrow> (string \<times> nat) list \<Rightarrow> (string \<times> nat) list" where
  "bump k m = AList.update k ((case map_of m k of None \<Rightarrow> 0 | Some c \<Rightarrow> c) + 1) m"

definition extract_codeBlocks :: "string list option \<Rightarrow> section_cache list option \<Rightarrow> code_block list" where
  "extract_codeBlocks lns secs =
     (case (secs, lns) of
        (Some ss, Some ls) \<Rightarrow>
          (let languageCounts =
                 foldl (\<lambda>lc sec. if s_type sec = ''code''
                                  then bump (fence_language (line_at ls (s_line sec))) lc
                                  else lc) [] ss
           in map (\<lambda>(l, c). \<lparr>language = l, count = c\<rparr>) languageCounts)
      | _ \<Rightarrow> [])"

subsection \<open>\<open>updateTags\<close>: the aggregate recomputation\<close>

definition count_step :: "note_entry \<Rightarrow> (string \<times> nat) list \<times> (string \<times> nat) list
    \<Rightarrow> (string \<times> nat) list \<times> (string \<times> nat) list" where
  "count_step n acc =
     (case acc of (tagCounts, folderCounts) \<Rightarrow>
        (foldl (\<lambda>tc t. bump t tc) tagCounts (tags n),
         bump (if folder n = [] then ''root'' else folder n) folderCounts))"

definition empty_link :: link_entry where
  "empty_link = \<lparr>link_outlinks = [], link_backlinks = []\<rparr>"

text \<open>\<open>if (!links[k]) links[k] = { outlinks: [], backlinks: [] }\<close>\<close>

definition ensure_link :: "string \<Rightarrow> (string \<times> link_entry) list \<Rightarrow> (string \<times> link_entry) list" where
  "ensure_link k links = (case map_of links k of None \<Rightarrow> AList.update k empty_link links | Some _ \<Rightarrow> links)"

definition link_at :: "(string \<times> link_entry) list \<Rightarrow> string \<Rightarrow> link_entry" where
  "link_at links k = (case map_of links k of None \<Rightarrow> empty_link | Some e \<Rightarrow> e)"

definition add_backlink :: "string \<Rightarrow> (string \<times> link_entry) list \<Rightarrow> string \<Rightarrow> (string \<times> link_entry) list" where
  "add_backlink src links targetPath =
     (let links1 = ensure_link targetPath links;
          e = link_at links1 targetPath
      in if src \<in> set (link_backlinks e) then links1
         else AList.update targetPath (e\<lparr>link_backlinks := link_backlinks e @ [src]\<rparr>) links1)"

definition link_step :: "note_entry \<Rightarrow> (string \<times> link_entry) list \<Rightarrow> (string \<times> link_entry) list" where
  "link_step n links =
     (let links1 = ensure_link (path n) links;
          links2 = AList.update (path n) ((link_at links1 (path n))\<lparr>link_outlinks := outlinks n\<rparr>) links1
      in foldl (add_backlink (path n)) links2 (outlinks n))"

definition task_step :: "note_entry \<Rightarrow> nat \<times> nat \<Rightarrow> nat \<times> nat" where
  "task_step n acc =
     (case acc of (totalTasks', totalIncompleteTasks') \<Rightarrow>
        (totalTasks' + length (tasks n),
         totalIncompleteTasks' + length (filter (\<lambda>t. \<not> completed t) (tasks n))))"

definition updateTags :: "store \<Rightarrow> store" where
  "updateTags s =
     (let db = readDb s;
          vals = map snd (db_notes db);
          counts = foldl (\<lambda>acc n. count_step n acc) ([], []) vals;
          tagCounts = fst counts;
          folderCounts = snd counts;
          links = foldl (\<lambda>l n. link_step n l) [] vals;
          tt = foldl (\<lambda>acc n. task_step n acc) (0, 0) vals;
          st = (stats db)\<lparr>
                 totalTags := length (map fst tagCounts),
                 totalLinks := foldl (\<lambda>sum n. sum + length (outlinks n)) 0 vals,
                 totalEmbeds := foldl (\<lambda>sum n. sum + length (embeds n)) 0 vals,
                 totalTasks := fst tt,
                 totalIncompleteTasks := snd tt\<rparr>
      in writeDb (db\<lparr>db_tags := tagCounts, db_folders := folderCounts, db_links := links, stats := st\<rparr>) s)"

subsection \<open>\<open>updateNote\<close>, \<open>deleteNote\<close>, \<open>rebuildDatabase\<close>\<close>

definition extract_note :: "app \<Rightarrow> tfile \<Rightarrow> cached_metadata option \<Rightarrow> note_entry" where
  "extract_note a f md =
     (let lns = (if opt_field m_listItems md \<noteq> None \<or> opt_field m_sections md \<noteq> None
                 then Some (split_nl (vault_read a f)) else None)
      in \<lparr>path = f_path f,
          basename = f_basename f,
          extension = f_extension f,
          fsize = stat_size f,
          ctime = stat_ctime f,
          mtime = stat_mtime f,
          tags = dedupe [] (extract_tags md),
          outlinks = resolve_all a (f_path f) (opt_field m_links md),
          embeds = resolve_all a (f_path f) (opt_field m_embeds md),
          frontmatter = (case opt_field m_frontmatter md of None \<Rightarrow> [] | Some fm \<Rightarrow> fm),
          headings = (case opt_field m_headings md of
                        None \<Rightarrow> []
                      | Some hs \<Rightarrow> map (\<lambda>h. \<lparr>level = h_level h, heading_text = h_heading h\<rparr>) hs),
          tasks = extract_tasks lns (opt_field m_listItems md),
          codeBlocks = extract_codeBlocks lns (opt_field m_sections md),
          folder = (case parent_path f of None \<Rightarrow> [] | Some p \<Rightarrow> p)\<rparr>)"

text \<open>The first half of \<open>updateNote\<close> and of \<open>deleteNote\<close>: the note map, two statistics, the first write.\<close>

definition touch_stats :: "string \<Rightarrow> index_db \<Rightarrow> index_db" where
  "touch_stats now db =
     db\<lparr>stats := (stats db)\<lparr>totalNotes := length (map fst (db_notes db)), lastUpdated := now\<rparr>\<rparr>"

definition updateNote :: "app \<Rightarrow> string \<Rightarrow> tfile \<Rightarrow> cached_metadata option \<Rightarrow> store \<Rightarrow> store" where
  "updateNote a now f md s =
     (let db = readDb s;
          db1 = db\<lparr>db_notes := AList.update (f_path f) (extract_note a f md) (db_notes db)\<rparr>
      in updateTags (writeDb (touch_stats now db1) s))"

definition deleteNote :: "string \<Rightarrow> string \<Rightarrow> store \<Rightarrow> store" where
  "deleteNote now p s =
     (let db = readDb s;
          db1 = db\<lparr>db_notes := AList.delete p (db_notes db)\<rparr>
      in updateTags (writeDb (touch_stats now db1) s))"

text \<open>
  \<open>rebuildDatabase\<close> reads the clock once for the cleared document and once in every
  \<open>updateNote\<close>: \<open>clock 0\<close>, \<open>clock 1\<close>, ... are those readings as ISO strings.
\<close>

definition rebuildDatabase :: "app \<Rightarrow> (nat \<Rightarrow> string) \<Rightarrow> store \<Rightarrow> store" where
  "rebuildDatabase a clock s =
     foldl (\<lambda>st (i, f). updateNote a (clock (Suc i)) f (getFileCache a f) st)
       (writeDb (defaultData (clock 0)) s)
       (enumerate 0 (getMarkdownFiles a))"

text \<open>The events the host delivers, each with the state of the vault and the clock reading of its handler.\<close>

datatype index_op =
    Upsert app string tfile "cached_metadata option"
  | Delete string string

fun apply_op :: "store \<Rightarrow> index_op \<Rightarrow> store" where
  "apply_op s (Upsert a now f md) = updateNote a now f md s"
| "apply_op s (Delete now p) = deleteNote now p s"

text \<open>The store after \<open>initDatabase\<close> on a fresh vault.\<close>

definition init_store :: "string \<Rightarrow> store" where
  "init_store now = \<lparr>persisted = defaultData now, written = [defaultData now]\<rparr>"

section \<open>The query bridge (obsidian-dataview-bridge, src/database.ts)\<close>

text \<open>What \<open>dv.query\<close> hands back: a successful result with its value, a failure with an
  optional message, or an exception with an optional message.\<close>

record query_value =
  qv_type :: string
  qv_headers :: "string list option"
  qv_values :: "string list list option"
  qv_columnTypes :: "string list option"

datatype dv_outcome =
    Successful query_value
  | Unsuccessful "string option"
  | Thrown "string option"

record stored_result =
  r_type :: string
  r_headers :: "string list"
  r_values :: "string list list"
  r_columnTypes :: "string list option"

record query_entry =
  query :: "string option"
  status :: string
  result :: "stored_result option"
  error :: "string option"
  timestamp :: "string option"

record bridge_db =
  version :: string
  dataviewAvailable :: bool
  dataviewQueries :: "(string \<times> query_entry) list option"
  lastChecked :: string

text \<open>
  The host during one poll cycle: \<open>dataview_api\<close> is \<open>plugins.dataview.api\<close> when the
  plugin and its API are there, \<open>toISOString\<close> is \<open>Date.prototype.toISOString\<close> on
  milliseconds since the epoch. The clock readings of a cycle are \<open>clock 0\<close>,
  \<open>clock 1\<close>, ... in the order the cycle makes them.
\<close>

record bridge_host =
  dataview_api :: "(string option \<Rightarrow> dv_outcome) option"
  toISOString :: "int \<Rightarrow> string"

record bstore =
  b_persisted :: bridge_db
  b_written :: "bridge_db list"

definition b_readDb :: "bstore \<Rightarrow> bridge_db" where
  "b_readDb s = b_persisted s"

definition b_writeDb :: "bridge_db \<Rightarrow> bstore \<Rightarrow> bstore" where
  "b_writeDb d s = \<lparr>b_persisted = d, b_written = b_written s @ [d]\<rparr>"

definition checkDataviewAvailability :: "bridge_host \<Rightarrow> int \<Rightarrow> bstore \<Rightarrow> bstore" where
  "checkDataviewAvailability h t s =
     (let db = b_readDb s;
          isAvailable = (dataview_api h \<noteq> None)
      in b_writeDb (db\<lparr>dataviewAvailable := isAvailable, lastChecked := toISOString h t\<rparr>) s)"

text \<open>\<open>db.dataviewQueries._check && db.dataviewQueries._check.status === 'pending'\<close>\<close>

definition check_pending :: "(string \<times> query_entry) list \<Rightarrow> bool" where
  "check_pending qs = (case map_of qs ''_check'' of None \<Rightarrow> False | Some e \<Rightarrow> status e = ''pending'')"

definition is_pending_query :: "string \<times> query_entry \<Rightarrow> bool" where
  "is_pending_query p = (case p of (qid, q) \<Rightarrow> \<not> startsWith_underscore qid \<and> status q = ''pending'')"

text \<open>\<open>x || fallback\<close> on an optional string: \<open>undefined\<close> and the empty string both fall back.\<close>

definition or_else :: "string option \<Rightarrow> string \<Rightarrow> string" where
  "or_else x fallback = (case x of None \<Rightarrow> fallback | Some m \<Rightarrow> if m = [] then fallback else m)"

definition mark_failed :: "bridge_host \<Rightarrow> (nat \<Rightarrow> int) \<Rightarrow> (string \<times> query_entry) list
    \<Rightarrow> (string \<times> query_entry) list \<Rightarrow> (string \<times> query_entry) list" where
  "mark_failed h clock pendingQueries qs =
     foldl (\<lambda>m (i, queryId, queryData).
              AList.update queryId
                (queryData\<lparr>status := ''error'',
                           error := Some ''Dataview plugin not available'',
                           timestamp := Some (toISOString h (clock i))\<rparr>) m)
       qs (enumerate 0 pendingQueries)"

definition execute_one :: "(string option \<Rightarrow> dv_outcome) \<Rightarrow> string \<Rightarrow> query_entry \<Rightarrow> query_entry" where
  "execute_one dv now queryData =
     (let q = query queryData
      in case dv q of
           Successful queryResult \<Rightarrow>
             \<lparr>query = q, status = ''success'',
              result = Some \<lparr>r_type = qv_type queryResult,
                             r_headers = (case qv_headers queryResult of None \<Rightarrow> [] | Some hs \<Rightarrow> hs),
                             r_values = (case qv_values queryResult of None \<Rightarrow> [] | Some vs \<Rightarrow> vs),
                             r_columnTypes =
                               (if qv_type queryResult = ''table''
                                then Some (case qv_columnTypes queryResult of None \<Rightarrow> [] | Some cs \<Rightarrow> cs)
                                else None)\<rparr>,
              error = None, timestamp = Some now\<rparr>
         | Unsuccessful e \<Rightarrow>
             \<lparr>query = q, status = ''error'', result = None,
              error = Some (or_else (Some (or_else e ''Query failed'')) ''Query execution failed''),
              timestamp = Some now\<rparr>
         | Thrown m \<Rightarrow>
             \<lparr>query = q, status = ''error'', result = None,
              error = Some (or_else m ''Query execution failed''),
              timestamp = Some now\<rparr>)"

definition execute_all :: "bridge_host \<Rightarrow> (string option \<Rightarrow> dv_outcome) \<Rightarrow> (nat \<Rightarrow> int)
    \<Rightarrow> (string \<times> query_entry) list \<Rightarrow> (string \<times> query_entry) list \<Rightarrow> (string \<times> query_entry) list" where
  "execute_all h dv clock pendingQueries qs =
     foldl (\<lambda>m (i, queryId, queryData).
              AList.update queryId (execute_one dv (toISOString h (clock i)) queryData) m)
       qs (enumerate 0 pendingQueries)"

text \<open>\<open>!id.startsWith('_') && query.timestamp && query.timestamp < oneDayAgo\<close>: the
  comparison is the one of strings, code unit by code unit.\<close>

definition expired :: "string \<Rightarrow> string \<times> query_entry \<Rightarrow> bool" where
  "expired oneDayAgo p =
     (case p of (qid, q) \<Rightarrow>
        \<not> startsWith_underscore qid \<and>
        (case timestamp q of None \<Rightarrow> False | Some ts \<Rightarrow> ts \<noteq> [] \<and> ts < oneDayAgo))"

definition cleanup :: "string \<Rightarrow> (string \<times> query_entry) list \<Rightarrow> (string \<times> query_entry) list" where
  "cleanup oneDayAgo qs = filter (\<lambda>p. \<not> expired oneDayAgo p) qs"

definition oneDay :: int where
  "oneDay = 24 * 60 * 60 * 1000"

definition checkAndExecuteDataviewQueries :: "bridge_host \<Rightarrow> (nat \<Rightarrow> int) \<Rightarrow> bstore \<Rightarrow> bstore" where
  "checkAndExecuteDataviewQueries h clock s =
     (let db = b_readDb s
      in case dataviewQueries db of
           None \<Rightarrow> s
         | Some qs \<Rightarrow>
             if check_pending qs
             then (let s1 = checkDataviewAvailability h (clock 0) s
                   in b_writeDb (db\<lparr>dataviewQueries := Some (AList.delete ''_check'' qs)\<rparr>) s1)
             else (let pendingQueries = filter is_pending_query qs
                   in if length pendingQueries = 0 then s
                      else (case dataview_api h of
                              None \<Rightarrow>
                                b_writeDb (db\<lparr>dataviewQueries :=
                                                Some (mark_failed h clock pendingQueries qs)\<rparr>) s
                            | Some dv \<Rightarrow>
                                (let qs1 = execute_all h dv clock pendingQueries qs;
                                     oneDayAgo = toISOString h (clock (length pendingQueries) - oneDay)
                                 in b_writeDb (db\<lparr>dataviewQueries := Some (cleanup oneDayAgo qs1)\<rparr>) s))))"

section \<open>The properties\<close>

text \<open>The six statistics of the index document, read off its note map and its tag map.\<close>

definition stats_consistent :: "index_db \<Rightarrow> bool" where
  "stats_consistent db =
     (let vals = map snd (db_notes db); st = stats db
      in totalNotes st = card (fst ` set (db_notes db))
       \<and> totalTags st = card (fst ` set (db_tags db))
       \<and> totalLinks st = sum_list (map (\<lambda>n. length (outlinks n)) vals)
       \<and> totalEmbeds st = sum_list (map (\<lambda>n. length (embeds n)) vals)
       \<and> totalTasks st = sum_list (map (\<lambda>n. length (tasks n)) vals)
       \<and> totalIncompleteTasks st =
           sum_list (map (\<lambda>n. length (filter (\<lambda>t. \<not> completed t) (tasks n))) vals))"

text \<open>The note map is a JavaScript object (no key twice) and every record sits under its own path.\<close>

definition notes_wf :: "index_db \<Rightarrow> bool" where
  "notes_wf db = (distinct (map fst (db_notes db)) \<and> (\<forall>(k, n) \<in> set (db_notes db). path n = k))"

text \<open>Forward and backward links agree; \<open>link_at\<close> reads a path without an entry as an entry
  with no links.\<close>

definition links_symmetric :: "index_db \<Rightarrow> bool" where
  "links_symmetric db =
     ((\<forall>(k, n) \<in> set (db_notes db). \<forall>p.
         (p \<in> set (link_outlinks (link_at (db_links db) (path n)))) =
         (path n \<in> set (link_backlinks (link_at (db_links db) p))))
      \<and> (\<forall>(k, e) \<in> set (db_links db). distinct (link_backlinks e)))"

text \<open>The link table read as a total function, and \<open>add_backlink\<close> on that reading.\<close>

definition add_backlink_f :: "string \<Rightarrow> (string \<Rightarrow> link_entry) \<Rightarrow> string \<Rightarrow> (string \<Rightarrow> link_entry)" where
  "add_backlink_f src g t =
     g(t := (g t)\<lparr>link_backlinks :=
               (if src \<in> set (link_backlinks (g t)) then link_backlinks (g t)
                else link_backlinks (g t) @ [src])\<rparr>)"

subsection \<open>A small vault\<close>

definition demo_content :: string where
  "demo_content =
     ''# Title'' @ [CHR 0x0A] @ ''- [ ] one'' @ [CHR 0x0A] @ ''  - [x]   two  '' @ [CHR 0x0A]
     @ ''* [ ] star'' @ [CHR 0x0A] @ ''```Python'' @ [CHR 0x0A] @ ''print()'' @ [CHR 0x0A] @ ''```''"

definition demo_file_a :: tfile where
  "demo_file_a =
     \<lparr>f_path = ''a.md'', f_basename = ''a'', f_extension = ''md'',
      stat_size = 64, stat_ctime = 1000, stat_mtime = 2000, parent_path = Some ''inbox''\<rparr>"

definition demo_md_a :: cached_metadata where
  "demo_md_a =
     \<lparr>m_tags = Some [''#y''],
      m_frontmatter = Some [(''tags'', FmStr ''x'')],
      m_links = Some [''b'', ''nowhere'', ''b''],
      m_embeds = Some [''b''],
      m_headings = Some [\<lparr>h_level = 1, h_heading = ''Title''\<rparr>],
      m_listItems = Some [\<lparr>li_task = Some '' '', li_line = 1\<rparr>,
                          \<lparr>li_task = Some ''x'', li_line = 2\<rparr>,
                          \<lparr>li_task = Some '' '', li_line = 3\<rparr>],
      m_sections = Some [\<lparr>s_type = ''code'', s_line = 4\<rparr>]\<rparr>"

definition demo_app :: app where
  "demo_app =
     \<lparr>vault_read = (\<lambda>f. demo_content),
      getFirstLinkpathDest = (\<lambda>l src. if l = ''b'' then Some ''b.md'' else None),
      getMarkdownFiles = [demo_file_a],
      getFileCache = (\<lambda>f. Some demo_md_a)\<rparr>"

definition demo_store :: store where
  "demo_store = updateNote demo_app ''t1'' demo_file_a (Some demo_md_a) (init_store ''t0'')"

text \<open>The index document with its one timestamp blanked.\<close>

definition strip_time :: "index_db \<Rightarrow> index_db" where
  "strip_time db = db\<lparr>stats := (stats db)\<lparr>lastUpdated := []\<rparr>\<rparr>"

text \<open>The aggregates of a document are current when recomputing them changes nothing.\<close>

definition recompute :: "index_db \<Rightarrow> index_db" where
  "recompute db = persisted (updateTags \<lparr>persisted = db, written = []\<rparr>)"

definition aggregates_current :: "index_db \<Rightarrow> bool" where
  "aggregates_current db = (recompute db = db)"

text \<open>
  The checkbox marker pattern \<open>^[\s\t]*-\s*\[[^\]]\]\s*(.*)$\<close> read as a relation:
  \<open>checkbox_pattern l g\<close> when the line \<open>l\<close> is white space, a dash, white space, a
  bracketed character that is no closing bracket, white space, and a rest \<open>g\<close> free of
  line terminators that the group can capture.
\<close>

definition checkbox_pattern :: "string \<Rightarrow> string \<Rightarrow> bool" where
  "checkbox_pattern l g =
     (\<exists>ws1 ws2 c ws3.
        l = ws1 @ [CHR ''-''] @ ws2 @ [CHR ''['', c, CHR '']''] @ ws3 @ g
        \<and> list_all is_space ws1 \<and> list_all is_space ws2 \<and> list_all is_space ws3
        \<and> c \<noteq> CHR '']'' \<and> \<not> list_ex is_line_terminator g)"

subsection \<open>Poll cycles in a row\<close>

definition run_cycles :: "(bridge_host \<times> (nat \<Rightarrow> int)) list \<Rightarrow> bstore \<Rightarrow> bstore" where
  "run_cycles cs s = foldl (\<lambda>st (h, clock). checkAndExecuteDataviewQueries h clock st) s cs"

subsection \<open>A small bridge document\<close>

definition demo_iso :: "int \<Rightarrow> string" where
  "demo_iso t =
     (if t = 0 then ''2024-01-01T00:00:00.000Z''
      else if t = 3600000 then ''2024-01-01T01:00:00.000Z''
      else if t = 90000000 then ''2024-01-02T01:00:00.000Z''
      else ''2024-01-03T00:00:00.000Z'')"

definition demo_dv :: "string option \<Rightarrow> dv_outcome" where
  "demo_dv q =
     (if q = Some ''LIST''
      then Successful \<lparr>qv_type = ''list'', qv_headers = None, qv_values = Some [[''a.md'']],
                       qv_columnTypes = None\<rparr>
      else Unsuccessful (Some ''parse error''))"

definition demo_host_up :: bridge_host where
  "demo_host_up = \<lparr>dataview_api = Some demo_dv, toISOString = demo_iso\<rparr>"

definition demo_host_down :: bridge_host where
  "demo_host_down = \<lparr>dataview_api = None, toISOString = demo_iso\<rparr>"

definition demo_clock :: "nat \<Rightarrow> int" where
  "demo_clock k = 90000000"

definition q_pending :: query_entry where
  "q_pending = \<lparr>query = Some ''LIST'', status = ''pending'', result = None, error = None, timestamp = None\<rparr>"

definition q_old :: query_entry where
  "q_old =
     \<lparr>query = Some ''LIST'', status = ''success'',
      result = Some \<lparr>r_type = ''list'', r_headers = [], r_values = [[''a.md'']], r_columnTypes = None\<rparr>,
      error = None, timestamp = Some ''2024-01-01T00:00:00.000Z''\<rparr>"

definition q_bare :: query_entry where
  "q_bare = \<lparr>query = Some ''LIST'', status = ''error'', result = None, error = Some ''parse error'', timestamp = None\<rparr>"

definition q_check :: query_entry where
  "q_check = \<lparr>query = None, status = ''pending'', result = None, error = None, timestamp = None\<rparr>"

definition demo_bstore :: "(string \<times> query_entry) list \<Rightarrow> bstore" where
  "demo_bstore qs =
     \<lparr>b_persisted = \<lparr>version = ''2.0.0'', dataviewAvailable = False, dataviewQueries = Some qs,
                      lastChecked = ''2024-01-01T00:00:00.000Z''\<rparr>,
      b_written = []\<rparr>"

definition demo_queries :: "(string \<times> query_entry) list" where
  "demo_queries = [(''q1'', q_pending), (''old'', q_old), (''bare'', q_bare), (''_old'', q_old)]"

section \<open>The statistics after every operation\<close>

lemma foldl_add_sum: "foldl (\<lambda>sum n. sum + f n) (a::nat) xs = a + sum_list (map f xs)"
  by (induction xs arbitrary: a) auto

lemma foldl_task_step:
  "foldl (\<lambda>acc n. task_step n acc) (a, b) xs =
     (a + sum_list (map (\<lambda>n. length (tasks n)) xs),
      b + sum_list (map (\<lambda>n. length (filter (\<lambda>t. \<not> completed t) (tasks n))) xs))"
  by (induction xs arbitrary: a b) (auto simp: task_step_def)

lemma distinct_bump: "distinct (map fst m) \<Longrightarrow> distinct (map fst (bump k m))"
  by (simp add: bump_def distinct_update)

lemma distinct_foldl_bump: "distinct (map fst m) \<Longrightarrow> distinct (map fst (foldl (\<lambda>tc t. bump t tc) m ts))"
  by (induction ts arbitrary: m) (auto simp: distinct_bump)

lemma distinct_count_step:
  "distinct (map fst (fst acc)) \<Longrightarrow> distinct (map fst (fst (count_step n acc)))"
  by (cases acc) (simp add: count_step_def distinct_foldl_bump)

lemma distinct_foldl_count_step:
  "distinct (map fst (fst acc)) \<Longrightarrow> distinct (map fst (fst (foldl (\<lambda>acc n. count_step n acc) acc xs)))"
  by (induction xs arbitrary: acc) (auto simp: distinct_count_step)

lemma persisted_updateTags_notes [simp]: "db_notes (persisted (updateTags s)) = db_notes (persisted s)"
  by (simp add: updateTags_def writeDb_def readDb_def Let_def)

lemma updateTags_consistent:
  assumes "distinct (map fst (db_notes (persisted s)))"
    and "totalNotes (stats (persisted s)) = length (db_notes (persisted s))"
  shows "stats_consistent (persisted (updateTags s))"
proof -
  have d: "distinct (map fst (fst (foldl (\<lambda>acc n. count_step n acc) ([], []) (map snd (db_notes (persisted s))))))"
    by (rule distinct_foldl_count_step) simp
  have c1: "card (fst ` set (db_notes (persisted s))) = length (db_notes (persisted s))"
    using assms(1) distinct_card[of "map fst (db_notes (persisted s))"] by simp
  show ?thesis
    using assms(2) c1 distinct_card[OF d]
    by (simp add: stats_consistent_def updateTags_def writeDb_def readDb_def Let_def
        foldl_add_sum foldl_task_step)
qed

lemma updateNote_consistent:
  assumes "distinct (map fst (db_notes (persisted s)))"
  shows "stats_consistent (persisted (updateNote a now f md s))"
    and "distinct (map fst (db_notes (persisted (updateNote a now f md s))))"
  using assms
  by (auto simp: updateNote_def Let_def readDb_def writeDb_def touch_stats_def distinct_update
      intro!: updateTags_consistent)

lemma deleteNote_consistent:
  assumes "distinct (map fst (db_notes (persisted s)))"
  shows "stats_consistent (persisted (deleteNote now p s))"
    and "distinct (map fst (db_notes (persisted (deleteNote now p s))))"
  using assms
  by (auto simp: deleteNote_def Let_def readDb_def writeDb_def touch_stats_def distinct_delete
      intro!: updateTags_consistent)

lemma init_consistent: "stats_consistent (persisted (init_store t0))"
  by (simp add: init_store_def defaultData_def stats_consistent_def)


lemma run_invariant:
  "stats_consistent (persisted (foldl apply_op (init_store t0) ops)) \<and>
   distinct (map fst (db_notes (persisted (foldl apply_op (init_store t0) ops))))"
proof (induction ops rule: rev_induct)
  case Nil
  show ?case by (simp add: init_consistent) (simp add: init_store_def defaultData_def)
next
  case (snoc op ops)
  then show ?case
    by (cases op) (simp_all add: updateNote_consistent deleteNote_consistent)
qed

lemma set_update_subset: "set (AList.update k v al) \<subseteq> insert (k, v) (set al)"
  by (induction al) auto

lemma path_extract_note [simp]: "path (extract_note a f md) = f_path f"
  by (simp add: extract_note_def Let_def)

lemma set_delete_subset: "set (AList.delete k al) \<subseteq> set al"
  by (auto simp: AList.delete_eq)

lemma notes_wf_updateNote: "notes_wf (persisted s) \<Longrightarrow> notes_wf (persisted (updateNote a now f md s))"
proof -
  assume w: "notes_wf (persisted s)"
  have eq: "db_notes (persisted (updateNote a now f md s)) =
        AList.update (f_path f) (extract_note a f md) (db_notes (persisted s))"
    by (simp add: updateNote_def Let_def readDb_def writeDb_def touch_stats_def)
  show ?thesis
    unfolding notes_wf_def eq
    using w set_update_subset[of "f_path f" "extract_note a f md" "db_notes (persisted s)"]
    by (auto simp: notes_wf_def distinct_update)
qed

lemma notes_wf_deleteNote: "notes_wf (persisted s) \<Longrightarrow> notes_wf (persisted (deleteNote now p s))"
proof -
  assume w: "notes_wf (persisted s)"
  have eq: "db_notes (persisted (deleteNote now p s)) = AList.delete p (db_notes (persisted s))"
    by (simp add: deleteNote_def Let_def readDb_def writeDb_def touch_stats_def)
  show ?thesis
    unfolding notes_wf_def eq
    using w set_delete_subset[of p "db_notes (persisted s)"]
    by (auto simp: notes_wf_def distinct_delete)
qed

text \<open>Every store the plugin can reach from a fresh one keeps its records under their own paths.\<close>

lemma notes_wf_after_ops: "notes_wf (persisted (foldl apply_op (init_store t0) ops))"
proof (induction ops rule: rev_induct)
  case Nil
  show ?case by (simp add: init_store_def defaultData_def notes_wf_def)
next
  case (snoc op ops)
  then show ?case
    by (cases op) (simp_all add: notes_wf_updateNote notes_wf_deleteNote)
qed

text \<open>
  C1. After every sequence of upserts and deletes that starts from the empty default
  document, the persisted index document has \<open>totalNotes\<close> equal to the number of keys
  of \<open>notes\<close>, \<open>totalTags\<close> equal to the number of keys of \<open>tags\<close>, and
  \<open>totalLinks\<close>, \<open>totalEmbeds\<close>, \<open>totalTasks\<close>, \<open>totalIncompleteTasks\<close> equal to
  the sums over all notes of the numbers of outlinks, embeds, tasks and tasks that are
  not completed.
\<close>

theorem stats_consistent_after_ops:
  "stats_consistent (persisted (foldl apply_op (init_store t0) ops))"
  using run_invariant by blast

theorem stats_consistent_after_ops_witness:
  "stats_consistent (persisted (foldl apply_op (init_store ''t0'')
       [Upsert demo_app ''t1'' demo_file_a (Some demo_md_a), Delete ''t2'' ''b.md'']))
   \<and> totalTasks (stats (persisted (foldl apply_op (init_store ''t0'')
       [Upsert demo_app ''t1'' demo_file_a (Some demo_md_a), Delete ''t2'' ''b.md'']))) = 3
   \<and> totalIncompleteTasks (stats (persisted (foldl apply_op (init_store ''t0'')
       [Upsert demo_app ''t1'' demo_file_a (Some demo_md_a), Delete ''t2'' ''b.md'']))) = 2"
proof -
  have "totalTasks (stats (persisted (foldl apply_op (init_store ''t0'')
       [Upsert demo_app ''t1'' demo_file_a (Some demo_md_a), Delete ''t2'' ''b.md'']))) = 3"
    by code_simp
  moreover have "totalIncompleteTasks (stats (persisted (foldl apply_op (init_store ''t0'')
       [Upsert demo_app ''t1'' demo_file_a (Some demo_md_a), Delete ''t2'' ''b.md'']))) = 2"
    by code_simp
  ultimately show ?thesis
    using stats_consistent_after_ops[of "''t0''"
        "[Upsert demo_app ''t1'' demo_file_a (Some demo_md_a), Delete ''t2'' ''b.md'']"]
    by simp
qed

section \<open>Links and backlinks after the recomputation\<close>

lemma link_at_update: "link_at (AList.update k v L) = (link_at L)(k := v)"
  by (rule ext) (simp add: link_at_def update_conv')

lemma link_at_ensure: "link_at (ensure_link k L) = link_at L"
  by (rule ext) (auto simp: link_at_def ensure_link_def update_conv' empty_link_def split: option.splits)

lemma link_at_add_backlink: "link_at (add_backlink src L t) = add_backlink_f src (link_at L) t"
  by (rule ext) (simp add: add_backlink_def add_backlink_f_def Let_def link_at_update link_at_ensure)

lemma link_at_foldl_add_backlink:
  "link_at (foldl (add_backlink src) L ts) = foldl (add_backlink_f src) (link_at L) ts"
  by (induction ts arbitrary: L) (simp_all add: link_at_add_backlink)

lemma foldl_add_backlink_f_out:
  "link_outlinks (foldl (add_backlink_f src) g ts k) = link_outlinks (g k)"
  by (induction ts arbitrary: g) (simp_all add: add_backlink_f_def)

lemma foldl_add_backlink_f_back:
  "set (link_backlinks (foldl (add_backlink_f src) g ts k)) =
     set (link_backlinks (g k)) \<union> (if k \<in> set ts then {src} else {})"
  by (induction ts arbitrary: g) (auto simp: add_backlink_f_def)

lemma add_backlink_f_distinct:
  "distinct (link_backlinks (g k)) \<Longrightarrow> distinct (link_backlinks (add_backlink_f src g t k))"
  by (auto simp: add_backlink_f_def)

lemma foldl_add_backlink_f_distinct:
  "distinct (link_backlinks (g k)) \<Longrightarrow> distinct (link_backlinks (foldl (add_backlink_f src) g ts k))"
proof (induction ts arbitrary: g)
  case Nil
  then show ?case by simp
next
  case (Cons t ts)
  from Cons.prems have "distinct (link_backlinks (add_backlink_f src g t k))"
    by (rule add_backlink_f_distinct)
  then show ?case using Cons.IH by simp
qed

lemma distinct_keys_ensure: "distinct (map fst L) \<Longrightarrow> distinct (map fst (ensure_link k L))"
  by (simp add: ensure_link_def distinct_update split: option.splits)

lemma distinct_keys_add_backlink: "distinct (map fst L) \<Longrightarrow> distinct (map fst (add_backlink src L t))"
  by (simp add: add_backlink_def Let_def distinct_update distinct_keys_ensure)

lemma distinct_keys_foldl_add_backlink:
  "distinct (map fst L) \<Longrightarrow> distinct (map fst (foldl (add_backlink src) L ts))"
  by (induction ts arbitrary: L) (simp_all add: distinct_keys_add_backlink)

lemma distinct_keys_link_step: "distinct (map fst L) \<Longrightarrow> distinct (map fst (link_step n L))"
  by (simp add: link_step_def Let_def distinct_keys_foldl_add_backlink distinct_update distinct_keys_ensure)

lemma distinct_keys_foldl_link_step:
  "distinct (map fst L) \<Longrightarrow> distinct (map fst (foldl (\<lambda>l n. link_step n l) L ns))"
  by (induction ns arbitrary: L) (simp_all add: distinct_keys_link_step)

lemma link_at_Nil: "link_at [] k = empty_link"
  by (simp add: link_at_def)

lemma link_at_link_step:
  "link_at (link_step n L) =
     foldl (add_backlink_f (path n)) ((link_at L)(path n := (link_at L (path n))\<lparr>link_outlinks := outlinks n\<rparr>)) (outlinks n)"
  by (simp add: link_step_def Let_def link_at_foldl_add_backlink link_at_update link_at_ensure)

lemma link_step_out:
  "link_outlinks (link_at (link_step n L) k) = (if k = path n then outlinks n else link_outlinks (link_at L k))"
  by (simp add: link_at_link_step foldl_add_backlink_f_out)

lemma link_step_back:
  "set (link_backlinks (link_at (link_step n L) k)) =
     set (link_backlinks (link_at L k)) \<union> (if k \<in> set (outlinks n) then {path n} else {})"
  by (simp add: link_at_link_step foldl_add_backlink_f_back)

lemma link_step_distinct:
  "distinct (link_backlinks (link_at L k)) \<Longrightarrow> distinct (link_backlinks (link_at (link_step n L) k))"
  unfolding link_at_link_step by (rule foldl_add_backlink_f_distinct) auto

lemma foldl_link_step_back:
  "set (link_backlinks (link_at (foldl (\<lambda>l n. link_step n l) L ns) k)) =
     set (link_backlinks (link_at L k)) \<union> {path n |n. n \<in> set ns \<and> k \<in> set (outlinks n)}"
  by (induction ns arbitrary: L) (auto simp: link_step_back)

lemma foldl_link_step_distinct:
  "distinct (link_backlinks (link_at L k)) \<Longrightarrow>
   distinct (link_backlinks (link_at (foldl (\<lambda>l n. link_step n l) L ns) k))"
  by (induction ns arbitrary: L) (auto simp: link_step_distinct)

lemma foldl_link_step_out_other:
  "k \<notin> path ` set ns \<Longrightarrow>
   link_outlinks (link_at (foldl (\<lambda>l n. link_step n l) L ns) k) = link_outlinks (link_at L k)"
  by (induction ns arbitrary: L) (auto simp: link_step_out)

lemma foldl_link_step_out:
  "distinct (map path ns) \<Longrightarrow> n \<in> set ns \<Longrightarrow>
   link_outlinks (link_at (foldl (\<lambda>l n. link_step n l) L ns) (path n)) = outlinks n"
proof (induction ns arbitrary: L)
  case Nil
  then show ?case by simp
next
  case (Cons a ns)
  show ?case
  proof (cases "n = a")
    case True
    with Cons.prems have "path a \<notin> path ` set ns" by auto
    with True show ?thesis by (simp add: foldl_link_step_out_other link_step_out)
  next
    case False
    with Cons show ?thesis by auto
  qed
qed

lemma map_of_link_at: "map_of L k = Some e \<Longrightarrow> link_at L k = e"
  by (simp add: link_at_def)

lemma notes_wf_paths:
  assumes "notes_wf db"
  shows "distinct (map path (map snd (db_notes db)))"
proof -
  have e: "map (path \<circ> snd) (db_notes db) = map fst (db_notes db)"
    using assms by (auto simp: notes_wf_def)
  have d: "distinct (map fst (db_notes db))"
    using assms by (simp add: notes_wf_def)
  show ?thesis unfolding map_map e by (rule d)
qed

lemma persisted_updateTags_links:
  "db_links (persisted (updateTags s)) = foldl (\<lambda>l n. link_step n l) [] (map snd (db_notes (persisted s)))"
  by (simp add: updateTags_def writeDb_def readDb_def Let_def)


text \<open>
  C2. After the aggregate recomputation, for every note \<open>n\<close> of \<open>notes\<close> and every
  path \<open>p\<close>, also one that is no key of \<open>notes\<close>: \<open>p\<close> is among the outlinks stored
  under \<open>links[n.path]\<close> exactly when \<open>n.path\<close> is among the backlinks stored under
  \<open>links[p]\<close>; and no backlink list holds a path twice. The note map is the one of the
  data model (\<open>notes_wf\<close>), which \<open>notes_wf_after_ops\<close> shows of every reachable store.
\<close>

theorem links_symmetric_updateTags:
  assumes "notes_wf (persisted s)"
  shows "links_symmetric (persisted (updateTags s))"
proof -
  let ?ns = "map snd (db_notes (persisted s))"
  let ?L = "foldl (\<lambda>l n. link_step n l) [] ?ns"
  have dp: "distinct (map path ?ns)" using assms by (rule notes_wf_paths)
  have sym: "(p \<in> set (link_outlinks (link_at ?L (path n)))) = (path n \<in> set (link_backlinks (link_at ?L p)))"
    if "n \<in> set ?ns" for n p
  proof -
    have o: "link_outlinks (link_at ?L (path n)) = outlinks n"
      using dp that by (rule foldl_link_step_out)
    have b: "set (link_backlinks (link_at ?L p)) = {path m |m. m \<in> set ?ns \<and> p \<in> set (outlinks m)}"
      by (simp add: foldl_link_step_back link_at_Nil empty_link_def)
    have "(\<exists>m. path n = path m \<and> m \<in> set ?ns \<and> p \<in> set (outlinks m)) = (p \<in> set (outlinks n))"
    proof
      assume "\<exists>m. path n = path m \<and> m \<in> set ?ns \<and> p \<in> set (outlinks m)"
      then obtain m where m: "path n = path m" "m \<in> set ?ns" "p \<in> set (outlinks m)" by blast
      have "inj_on path (set ?ns)" using dp distinct_map[of path ?ns] by blast
      with m that have "m = n" by (auto dest: inj_onD)
      with m show "p \<in> set (outlinks n)" by simp
    next
      assume "p \<in> set (outlinks n)"
      with that show "\<exists>m. path n = path m \<and> m \<in> set ?ns \<and> p \<in> set (outlinks m)" by blast
    qed
    with o b show ?thesis by simp
  qed
  have dist: "distinct (link_backlinks e)" if "(k, e) \<in> set ?L" for k e
  proof -
    have "distinct (link_backlinks (link_at ?L k))"
      by (rule foldl_link_step_distinct) (simp add: link_at_Nil empty_link_def)
    moreover have "distinct (map fst ?L)"
      by (rule distinct_keys_foldl_link_step) simp
    with that have "link_at ?L k = e"
      by (simp add: link_at_def)
    ultimately show ?thesis by simp
  qed
  show ?thesis
    unfolding links_symmetric_def persisted_updateTags_links persisted_updateTags_notes
    using sym dist by fastforce
qed
theorem links_symmetric_updateTags_witness:
  "notes_wf (persisted demo_store)
   \<and> links_symmetric (persisted (updateTags demo_store))
   \<and> (''a.md'', extract_note demo_app demo_file_a (Some demo_md_a)) \<in> set (db_notes (persisted (updateTags demo_store)))
   \<and> ''b.md'' \<in> set (link_outlinks (link_at (db_links (persisted (updateTags demo_store))) ''a.md''))
   \<and> ''a.md'' \<in> set (link_backlinks (link_at (db_links (persisted (updateTags demo_store))) ''b.md''))
   \<and> (''b.md'', \<lparr>link_outlinks = [], link_backlinks = [''a.md'']\<rparr>) \<in> set (db_links (persisted (updateTags demo_store)))
   \<and> map_of (db_notes (persisted (updateTags demo_store))) ''b.md'' = None"
proof -
  have h: "notes_wf (persisted demo_store)"
    by code_simp
  have "(''a.md'', extract_note demo_app demo_file_a (Some demo_md_a)) \<in> set (db_notes (persisted (updateTags demo_store)))"
    by code_simp
  moreover have "''b.md'' \<in> set (link_outlinks (link_at (db_links (persisted (updateTags demo_store))) ''a.md''))"
    by code_simp
  moreover have "''a.md'' \<in> set (link_backlinks (link_at (db_links (persisted (updateTags demo_store))) ''b.md''))"
    by code_simp
  moreover have "(''b.md'', \<lparr>link_outlinks = [], link_backlinks = [''a.md'']\<rparr>) \<in> set (db_links (persisted (updateTags demo_store)))"
    by code_simp
  moreover have "map_of (db_notes (persisted (updateTags demo_store))) ''b.md'' = None"
    by code_simp
  ultimately show ?thesis
    using h links_symmetric_updateTags[OF h] by simp
qed

section \<open>The two writes of an upsert\<close>

lemma updateTags_written: "written (updateTags s) = written s @ [persisted (updateTags s)]"
  by (simp add: updateTags_def writeDb_def Let_def)

lemma persisted_updateTags_recompute: "persisted (updateTags s) = recompute (persisted s)"
  by (simp add: recompute_def updateTags_def writeDb_def readDb_def Let_def)

lemma recompute_idem: "recompute (recompute db) = recompute db"
  by (simp add: recompute_def updateTags_def writeDb_def readDb_def Let_def)

lemma updateNote_written:
  "written (updateNote a now f md s) =
     written s @ [touch_stats now ((persisted s)\<lparr>db_notes := AList.update (f_path f) (extract_note a f md) (db_notes (persisted s))\<rparr>),
                  persisted (updateNote a now f md s)]"
  by (simp add: updateNote_def Let_def readDb_def updateTags_written) (simp add: writeDb_def)

lemma persisted_updateNote:
  "persisted (updateNote a now f md s) =
     recompute (touch_stats now ((persisted s)\<lparr>db_notes := AList.update (f_path f) (extract_note a f md) (db_notes (persisted s))\<rparr>))"
  by (simp add: updateNote_def Let_def readDb_def persisted_updateTags_recompute) (simp add: writeDb_def)

lemma map_of_update_other: "k \<noteq> k' \<Longrightarrow> map_of (AList.update k' v al) k = map_of al k"
  by (simp add: update_conv')

lemma map_of_update_same: "map_of (AList.update k v al) k = Some v"
  by (simp add: update_conv')


text \<open>
  C10. An upsert writes the index document twice. The document of the first write differs
  from the one read in \<open>notes[path]\<close>, \<open>stats.totalNotes\<close> and
  \<open>stats.lastUpdated\<close> only: \<open>tags\<close>, \<open>folders\<close>, \<open>links\<close> and the other five
  statistics are the old ones. The document of the second write has current aggregates,
  and the first one has them only if the two documents are the same.
\<close>

theorem updateNote_two_writes:
  "\<exists>mid. written (updateNote a now f md s) = written s @ [mid, persisted (updateNote a now f md s)]
         \<and> map_of (db_notes mid) (f_path f) = Some (extract_note a f md)
         \<and> (\<forall>k. k \<noteq> f_path f \<longrightarrow> map_of (db_notes mid) k = map_of (db_notes (persisted s)) k)
         \<and> totalNotes (stats mid) = length (db_notes mid)
         \<and> lastUpdated (stats mid) = now
         \<and> db_tags mid = db_tags (persisted s)
         \<and> db_folders mid = db_folders (persisted s)
         \<and> db_links mid = db_links (persisted s)
         \<and> totalTags (stats mid) = totalTags (stats (persisted s))
         \<and> totalLinks (stats mid) = totalLinks (stats (persisted s))
         \<and> totalEmbeds (stats mid) = totalEmbeds (stats (persisted s))
         \<and> totalTasks (stats mid) = totalTasks (stats (persisted s))
         \<and> totalIncompleteTasks (stats mid) = totalIncompleteTasks (stats (persisted s))
         \<and> aggregates_current (persisted (updateNote a now f md s))
         \<and> (mid \<noteq> persisted (updateNote a now f md s) \<longrightarrow> \<not> aggregates_current mid)"
proof -
  let ?mid = "touch_stats now ((persisted s)\<lparr>db_notes := AList.update (f_path f) (extract_note a f md) (db_notes (persisted s))\<rparr>)"
  have fin: "persisted (updateNote a now f md s) = recompute ?mid"
    by (rule persisted_updateNote)
  have 1: "written (updateNote a now f md s) = written s @ [?mid, persisted (updateNote a now f md s)]"
    by (rule updateNote_written)
  have 2: "db_notes ?mid = AList.update (f_path f) (extract_note a f md) (db_notes (persisted s))"
    by (simp add: touch_stats_def)
  have 3: "totalNotes (stats ?mid) = length (db_notes ?mid)" "lastUpdated (stats ?mid) = now"
    "db_tags ?mid = db_tags (persisted s)" "db_folders ?mid = db_folders (persisted s)"
    "db_links ?mid = db_links (persisted s)"
    "totalTags (stats ?mid) = totalTags (stats (persisted s))"
    "totalLinks (stats ?mid) = totalLinks (stats (persisted s))"
    "totalEmbeds (stats ?mid) = totalEmbeds (stats (persisted s))"
    "totalTasks (stats ?mid) = totalTasks (stats (persisted s))"
    "totalIncompleteTasks (stats ?mid) = totalIncompleteTasks (stats (persisted s))"
    by (simp_all add: touch_stats_def)
  have 4: "aggregates_current (persisted (updateNote a now f md s))"
    unfolding fin aggregates_current_def by (rule recompute_idem)
  have 5: "?mid \<noteq> persisted (updateNote a now f md s) \<longrightarrow> \<not> aggregates_current ?mid"
    unfolding fin aggregates_current_def by simp
  have 6: "map_of (db_notes ?mid) (f_path f) = Some (extract_note a f md)"
    unfolding 2 by (rule map_of_update_same)
  have 7: "\<forall>k. k \<noteq> f_path f \<longrightarrow> map_of (db_notes ?mid) k = map_of (db_notes (persisted s)) k"
    unfolding 2 by (simp add: map_of_update_other)
  show ?thesis
    using 1 3 4 5 6 7 by (intro exI[of _ ?mid] conjI)
qed


theorem updateNote_two_writes_witness:
  "length (written demo_store) = length (written (init_store ''t0'')) + 2
   \<and> written demo_store ! 1 \<noteq> persisted demo_store
   \<and> db_tags (written demo_store ! 1) = []
   \<and> db_tags (persisted demo_store) = [(''y'', 1), (''x'', 1)]
   \<and> \<not> aggregates_current (written demo_store ! 1)
   \<and> aggregates_current (persisted demo_store)
   \<and> ''b.md'' \<noteq> f_path demo_file_a
   \<and> map_of (db_notes (written demo_store ! 1)) ''b.md'' = map_of (db_notes (persisted (init_store ''t0''))) ''b.md''"
proof -
  have ne: "written demo_store ! 1 \<noteq> persisted demo_store"
    by code_simp
  have w: "written (init_store ''t0'') = [defaultData ''t0'']"
    by (simp add: init_store_def)
  have t1: "db_tags (written demo_store ! 1) = []"
    by code_simp
  have t2: "db_tags (persisted demo_store) = [(''y'', 1), (''x'', 1)]"
    by code_simp
  from updateNote_two_writes[of demo_app "''t1''" demo_file_a "Some demo_md_a" "init_store ''t0''"]
  obtain mid where m: "written demo_store = written (init_store ''t0'') @ [mid, persisted demo_store]"
    and c: "aggregates_current (persisted demo_store)"
    and n: "mid \<noteq> persisted demo_store \<longrightarrow> \<not> aggregates_current mid"
    unfolding demo_store_def by (elim exE conjE)
  from m w have mid: "written demo_store ! 1 = mid" and len: "length (written demo_store) = 3"
    by simp_all
  from ne n mid have "\<not> aggregates_current (written demo_store ! 1)"
    by simp
  moreover have "''b.md'' \<noteq> f_path demo_file_a"
    by code_simp
  moreover have "map_of (db_notes (written demo_store ! 1)) ''b.md'' = map_of (db_notes (persisted (init_store ''t0''))) ''b.md''"
    by code_simp
  ultimately show ?thesis using ne t1 t2 c len w by simp
qed

section \<open>Rebuilding twice\<close>

lemma strip_updateTags_norm:
  "strip_time (persisted (updateTags s)) =
   strip_time (persisted (updateTags \<lparr>persisted = strip_time (persisted s), written = []\<rparr>))"
  by (simp add: strip_time_def updateTags_def writeDb_def readDb_def Let_def)

lemma strip_updateNote_norm:
  "strip_time (persisted (updateNote a now f md s)) =
   strip_time (persisted (updateNote a [] f md \<lparr>persisted = strip_time (persisted s), written = []\<rparr>))"
  by (simp add: strip_time_def updateNote_def touch_stats_def updateTags_def writeDb_def readDb_def Let_def)

lemma strip_updateNote_cong:
  assumes "strip_time (persisted s) = strip_time (persisted s')"
  shows "strip_time (persisted (updateNote a now f md s)) = strip_time (persisted (updateNote a now' f md s'))"
  using assms strip_updateNote_norm[of a now f md s] strip_updateNote_norm[of a now' f md s'] by simp

lemma strip_foldl_updateNote:
  assumes "strip_time (persisted s) = strip_time (persisted s')" and "map snd xs = map snd ys"
  shows "strip_time (persisted (foldl (\<lambda>st (i, f). updateNote a (clock (Suc i)) f (getFileCache a f) st) s xs))
       = strip_time (persisted (foldl (\<lambda>st (i, f). updateNote a (clock' (Suc i)) f (getFileCache a f) st) s' ys))"
  using assms
proof (induction xs arbitrary: ys s s')
  case Nil
  then show ?case by simp
next
  case (Cons x xs)
  then obtain y ys' where ys: "ys = y # ys'" and sy: "snd x = snd y" and r: "map snd xs = map snd ys'"
    by (cases ys) auto
  obtain i f where x: "x = (i, f)" by (cases x)
  obtain j where y: "y = (j, f)" using sy x by (cases y) auto
  have "strip_time (persisted (updateNote a (clock (Suc i)) f (getFileCache a f) s))
      = strip_time (persisted (updateNote a (clock' (Suc j)) f (getFileCache a f) s'))"
    using Cons.prems(1) by (rule strip_updateNote_cong)
  from Cons.IH[OF this r] show ?case by (simp add: ys x y)
qed

lemma map_snd_enumerate: "map snd (enumerate n xs) = xs"
  by (simp add: enumerate_eq_zip)


text \<open>
  C7. \<open>rebuildDatabase\<close> run twice in a row over the same vault leaves the same
  \<open>notes\<close>, \<open>tags\<close>, \<open>folders\<close>, \<open>links\<close> and statistics as one run; only
  \<open>stats.lastUpdated\<close>, which each run takes from its own clock, may differ.
\<close>

theorem rebuild_idempotent:
  "db_notes (persisted (rebuildDatabase a clock2 (rebuildDatabase a clock1 s)))
     = db_notes (persisted (rebuildDatabase a clock1 s))
   \<and> db_tags (persisted (rebuildDatabase a clock2 (rebuildDatabase a clock1 s)))
     = db_tags (persisted (rebuildDatabase a clock1 s))
   \<and> db_folders (persisted (rebuildDatabase a clock2 (rebuildDatabase a clock1 s)))
     = db_folders (persisted (rebuildDatabase a clock1 s))
   \<and> db_links (persisted (rebuildDatabase a clock2 (rebuildDatabase a clock1 s)))
     = db_links (persisted (rebuildDatabase a clock1 s))
   \<and> (stats (persisted (rebuildDatabase a clock2 (rebuildDatabase a clock1 s))))\<lparr>lastUpdated := []\<rparr>
     = (stats (persisted (rebuildDatabase a clock1 s)))\<lparr>lastUpdated := []\<rparr>"
proof -
  have e: "strip_time (persisted (rebuildDatabase a clock2 (rebuildDatabase a clock1 s)))
         = strip_time (persisted (rebuildDatabase a clock1 s))"
    unfolding rebuildDatabase_def
    by (rule strip_foldl_updateNote)
       (simp_all add: writeDb_def strip_time_def defaultData_def map_snd_enumerate)
  from arg_cong[OF e, of db_notes] arg_cong[OF e, of db_tags] arg_cong[OF e, of db_folders]
       arg_cong[OF e, of db_links] arg_cong[OF e, of stats]
  show ?thesis by (simp add: strip_time_def)
qed

theorem rebuild_idempotent_witness:
  "db_notes (persisted (rebuildDatabase demo_app (\<lambda>i. ''late'') (rebuildDatabase demo_app (\<lambda>i. ''early'') (init_store ''t0''))))
     = db_notes (persisted (rebuildDatabase demo_app (\<lambda>i. ''early'') (init_store ''t0'')))
   \<and> map fst (db_notes (persisted (rebuildDatabase demo_app (\<lambda>i. ''early'') (init_store ''t0'')))) = [''a.md'']
   \<and> lastUpdated (stats (persisted (rebuildDatabase demo_app (\<lambda>i. ''late'') (rebuildDatabase demo_app (\<lambda>i. ''early'') (init_store ''t0''))))) = ''late''
   \<and> lastUpdated (stats (persisted (rebuildDatabase demo_app (\<lambda>i. ''early'') (init_store ''t0'')))) = ''early''"
proof -
  have "map fst (db_notes (persisted (rebuildDatabase demo_app (\<lambda>i. ''early'') (init_store ''t0'')))) = [''a.md'']"
    by code_simp
  moreover have "lastUpdated (stats (persisted (rebuildDatabase demo_app (\<lambda>i. ''late'') (rebuildDatabase demo_app (\<lambda>i. ''early'') (init_store ''t0''))))) = ''late''"
    by code_simp
  moreover have "lastUpdated (stats (persisted (rebuildDatabase demo_app (\<lambda>i. ''early'') (init_store ''t0'')))) = ''early''"
    by code_simp
  ultimately show ?thesis
    using rebuild_idempotent[of demo_app "\<lambda>i. ''late''" "\<lambda>i. ''early''" "init_store ''t0''"]
    by simp
qed

section \<open>Tasks from checkbox items\<close>

lemma not_space_dash [simp]: "\<not> is_space CHR ''-''" by (simp add: is_space_def)
lemma not_space_bracket [simp]: "\<not> is_space CHR ''[''" by (simp add: is_space_def)

lemma dropWhile_spaces: "list_all is_space ws \<Longrightarrow> dropWhile is_space (ws @ r) = dropWhile is_space r"
  by (induction ws) auto

lemma split_dropWhile: "\<exists>ws. xs = ws @ dropWhile P xs \<and> list_all P ws"
  by (rule exI[of _ "takeWhile P xs"]) (auto simp: list_all_iff dest: set_takeWhileD)

lemma trim_dropWhile: "trim (dropWhile is_space g) = trim g"
  by (simp add: trim_def)

lemma list_ex_dropWhile: "list_ex P (dropWhile Q g) \<Longrightarrow> list_ex P g"
  by (auto simp: list_ex_iff dest: set_dropWhileD)

lemma taskMatch_SomeD:
  assumes "taskMatch l = Some g"
  shows "\<exists>r1 c r2. dropWhile is_space l = CHR ''-'' # r1
           \<and> dropWhile is_space r1 = CHR ''['' # c # CHR '']'' # r2
           \<and> c \<noteq> CHR '']'' \<and> g = dropWhile is_space r2 \<and> \<not> list_ex is_line_terminator g"
proof (cases "dropWhile is_space l")
  case Nil
  with assms show ?thesis by (simp add: taskMatch_def)
next
  case (Cons d r1)
  note l = this
  show ?thesis
  proof (cases "d = CHR ''-''")
    case False
    with assms l show ?thesis by (simp add: taskMatch_def)
  next
    case True
    show ?thesis
    proof (cases "dropWhile is_space r1")
      case Nil
      with assms l True show ?thesis by (simp add: taskMatch_def)
    next
      case (Cons b t1)
      note a = this
      show ?thesis
      proof (cases t1)
        case Nil
        with assms l True a show ?thesis by (simp add: taskMatch_def)
      next
        case (Cons m t2)
        note b = this
        show ?thesis
        proof (cases t2)
          case Nil
          with assms l True a b show ?thesis by (simp add: taskMatch_def)
        next
          case (Cons e r2)
          with assms l True a b show ?thesis
            by (simp add: taskMatch_def Let_def split: if_splits)
        qed
      qed
    qed
  qed
qed

lemma taskMatch_sound: "taskMatch l = Some g \<Longrightarrow> checkbox_pattern l g"
proof -
  assume m: "taskMatch l = Some g"
  from taskMatch_SomeD[OF m] obtain r1 c r2 where
    r1: "dropWhile is_space l = CHR ''-'' # r1"
    and r2: "dropWhile is_space r1 = CHR ''['' # c # CHR '']'' # r2"
    and c: "c \<noteq> CHR '']''"
    and g: "g = dropWhile is_space r2" "\<not> list_ex is_line_terminator g"
    by (elim exE conjE)
  obtain ws1 where w1: "l = ws1 @ dropWhile is_space l" "list_all is_space ws1"
    using split_dropWhile[of l is_space] by (elim exE conjE)
  obtain ws2 where w2: "r1 = ws2 @ dropWhile is_space r1" "list_all is_space ws2"
    using split_dropWhile[of r1 is_space] by (elim exE conjE)
  obtain ws3 where w3: "r2 = ws3 @ dropWhile is_space r2" "list_all is_space ws3"
    using split_dropWhile[of r2 is_space] by (elim exE conjE)
  have e1: "l = ws1 @ CHR ''-'' # r1" using w1(1) unfolding r1 .
  have e2: "r1 = ws2 @ CHR ''['' # c # CHR '']'' # r2" using w2(1) unfolding r2 .
  have e3: "r2 = ws3 @ g" using w3(1) unfolding g(1)[symmetric] .
  have "l = ws1 @ [CHR ''-''] @ ws2 @ [CHR ''['', c, CHR '']''] @ ws3 @ g"
    unfolding e1 e2 e3 by simp
  with w1(2) w2(2) w3(2) c g(2) show ?thesis
    unfolding checkbox_pattern_def by (intro exI conjI)
qed

lemma taskMatch_complete:
  assumes "checkbox_pattern l g"
  shows "taskMatch l = Some (dropWhile is_space g)"
proof -
  from assms[unfolded checkbox_pattern_def] obtain ws1 ws2 c ws3 where
    l: "l = ws1 @ [CHR ''-''] @ ws2 @ [CHR ''['', c, CHR '']''] @ ws3 @ g"
    and w: "list_all is_space ws1" "list_all is_space ws2" "list_all is_space ws3"
    and c: "c \<noteq> CHR '']''" and g: "\<not> list_ex is_line_terminator g"
    by (elim exE conjE)
  have 1: "dropWhile is_space l = CHR ''-'' # ws2 @ [CHR ''['', c, CHR '']''] @ ws3 @ g"
    unfolding l using dropWhile_spaces[OF w(1)] by simp
  have 2: "dropWhile is_space (ws2 @ CHR ''['' # c # CHR '']'' # ws3 @ g) = CHR ''['' # c # CHR '']'' # ws3 @ g"
    using dropWhile_spaces[OF w(2)] by simp
  have 3: "dropWhile is_space (ws3 @ g) = dropWhile is_space g"
    using dropWhile_spaces[OF w(3)] by simp
  have 4: "\<not> list_ex is_line_terminator (dropWhile is_space g)"
    using g list_ex_dropWhile by blast
  show ?thesis
    using c 4 by (simp add: taskMatch_def 1 2 3 Let_def)
qed

lemma foldl_push_filter:
  "foldl (\<lambda>acc x. if P x then acc @ [h x] else acc) acc xs = acc @ map h (filter P xs)"
  by (induction xs arbitrary: acc) auto

lemma tasks_extract_note:
  assumes "opt_field m_listItems md = Some items"
  shows "tasks (extract_note a f md) =
           map (task_of_item (split_nl (vault_read a f))) (filter (\<lambda>it. li_task it \<noteq> None) items)"
  using assms by (simp add: extract_note_def extract_tasks_def Let_def foldl_push_filter)


text \<open>
  C8. When the metadata has list items, the extracted tasks are those of the items with a
  task marker, in order. For each of them \<open>completed\<close> holds exactly when the marker is
  not the single space, \<open>line\<close> is the item's start line plus one, and the text is the
  trimmed rest after the checkbox marker pattern when the source line matches the
  pattern and the whole trimmed line when it does not.
\<close>

theorem tasks_of_checkbox_items:
  assumes "opt_field m_listItems md = Some items"
  shows "let ls = split_nl (vault_read a f);
             ts = tasks (extract_note a f md);
             cb = filter (\<lambda>it. li_task it \<noteq> None) items
         in length ts = length cb \<and>
            (\<forall>i < length cb.
               completed (ts ! i) = (li_task (cb ! i) \<noteq> Some '' '')
             \<and> line (ts ! i) = li_line (cb ! i) + 1
             \<and> (\<forall>g. checkbox_pattern (line_at ls (li_line (cb ! i))) g \<longrightarrow> task_text (ts ! i) = trim g)
             \<and> ((\<forall>g. \<not> checkbox_pattern (line_at ls (li_line (cb ! i))) g) \<longrightarrow>
                   task_text (ts ! i) = trim (line_at ls (li_line (cb ! i)))))"
proof -
  let ?ls = "split_nl (vault_read a f)"
  let ?cb = "filter (\<lambda>it. li_task it \<noteq> None) items"
  have ts: "tasks (extract_note a f md) = map (task_of_item ?ls) ?cb"
    using assms by (rule tasks_extract_note)
  have p: "task_text (task_of_item ?ls it) = trim g" if "checkbox_pattern (line_at ?ls (li_line it)) g" for it g
    using taskMatch_complete[OF that] by (simp add: task_of_item_def Let_def trim_dropWhile)
  have q: "task_text (task_of_item ?ls it) = trim (line_at ?ls (li_line it))"
    if "\<forall>g. \<not> checkbox_pattern (line_at ?ls (li_line it)) g" for it
  proof (cases "taskMatch (line_at ?ls (li_line it))")
    case None
    then show ?thesis by (simp add: task_of_item_def Let_def)
  next
    case (Some g)
    then have "checkbox_pattern (line_at ?ls (li_line it)) g" by (rule taskMatch_sound)
    with that show ?thesis by blast
  qed
  have r: "completed (task_of_item ?ls it) = (li_task it \<noteq> Some '' '')"
          "line (task_of_item ?ls it) = li_line it + 1" for it
    by (simp_all add: task_of_item_def Let_def)
  show ?thesis
    unfolding Let_def ts
  proof (intro conjI allI impI)
    show "length (map (task_of_item ?ls) ?cb) = length ?cb" by simp
  next
    fix i assume "i < length ?cb"
    then show "completed (map (task_of_item ?ls) ?cb ! i) = (li_task (?cb ! i) \<noteq> Some '' '')"
      by (simp add: r)
  next
    fix i assume "i < length ?cb"
    then show "line (map (task_of_item ?ls) ?cb ! i) = li_line (?cb ! i) + 1"
      by (simp add: r)
  next
    fix i g assume "i < length ?cb" and "checkbox_pattern (line_at ?ls (li_line (?cb ! i))) g"
    then show "task_text (map (task_of_item ?ls) ?cb ! i) = trim g"
      by (simp add: p)
  next
    fix i assume "i < length ?cb" and "\<forall>g. \<not> checkbox_pattern (line_at ?ls (li_line (?cb ! i))) g"
    then show "task_text (map (task_of_item ?ls) ?cb ! i) = trim (line_at ?ls (li_line (?cb ! i)))"
      by (simp add: q)
  qed
qed

theorem tasks_of_checkbox_items_witness:
  "opt_field m_listItems (Some demo_md_a) =
     Some [\<lparr>li_task = Some '' '', li_line = 1\<rparr>, \<lparr>li_task = Some ''x'', li_line = 2\<rparr>,
           \<lparr>li_task = Some '' '', li_line = 3\<rparr>]
   \<and> checkbox_pattern (line_at (split_nl (vault_read demo_app demo_file_a)) 1) ''one''
   \<and> (\<forall>g. \<not> checkbox_pattern (line_at (split_nl (vault_read demo_app demo_file_a)) 3) g)
   \<and> length (tasks (extract_note demo_app demo_file_a (Some demo_md_a))) = 3
   \<and> task_text (tasks (extract_note demo_app demo_file_a (Some demo_md_a)) ! 0) = ''one''
   \<and> \<not> completed (tasks (extract_note demo_app demo_file_a (Some demo_md_a)) ! 0)
   \<and> completed (tasks (extract_note demo_app demo_file_a (Some demo_md_a)) ! 1)
   \<and> line (tasks (extract_note demo_app demo_file_a (Some demo_md_a)) ! 1) = 3
   \<and> task_text (tasks (extract_note demo_app demo_file_a (Some demo_md_a)) ! 2) = ''* [ ] star''"
proof -
  let ?items = "[\<lparr>li_task = Some '' '', li_line = 1\<rparr>, \<lparr>li_task = Some ''x'', li_line = 2\<rparr>,
                 \<lparr>li_task = Some '' '', li_line = 3\<rparr>]"
  let ?ls = "split_nl (vault_read demo_app demo_file_a)"
  let ?ts = "tasks (extract_note demo_app demo_file_a (Some demo_md_a))"
  have h: "opt_field m_listItems (Some demo_md_a) = Some ?items"
    by (simp add: opt_field_def demo_md_a_def)
  have l1: "line_at ?ls 1 = ''- [ ] one''" by code_simp
  have l3: "line_at ?ls 3 = ''* [ ] star''" by code_simp
  have p1: "checkbox_pattern (line_at ?ls 1) ''one''"
    unfolding l1 checkbox_pattern_def
    by (rule exI[of _ "[]"], rule exI[of _ "'' ''"], rule exI[of _ "CHR '' ''"], rule exI[of _ "'' ''"])
       (simp add: is_space_def is_line_terminator_def)
  have "taskMatch ''* [ ] star'' = None" by code_simp
  then have p3: "\<forall>g. \<not> checkbox_pattern (line_at ?ls 3) g"
    unfolding l3 using taskMatch_complete by fastforce
  have tr: "trim ''one'' = ''one''" "trim ''* [ ] star'' = ''* [ ] star''"
    by code_simp+
  have cb: "filter (\<lambda>it. li_task it \<noteq> None) ?items = ?items" by simp
  note t = tasks_of_checkbox_items[OF h, of demo_app demo_file_a, unfolded Let_def cb]
  from t have len: "length ?ts = 3" by simp
  from t have i0: "completed (?ts ! 0) = (li_task (?items ! 0) \<noteq> Some '' '')"
    "\<forall>g. checkbox_pattern (line_at ?ls (li_line (?items ! 0))) g \<longrightarrow> task_text (?ts ! 0) = trim g"
    by simp_all
  from t have i1: "completed (?ts ! 1) = (li_task (?items ! 1) \<noteq> Some '' '')"
    "line (?ts ! 1) = li_line (?items ! 1) + 1"
    by simp_all
  from t have i2: "(\<forall>g. \<not> checkbox_pattern (line_at ?ls (li_line (?items ! 2))) g) \<longrightarrow>
      task_text (?ts ! 2) = trim (line_at ?ls (li_line (?items ! 2)))"
    by simp
  from i0(2) p1 have a: "task_text (?ts ! 0) = ''one''" by (simp add: tr)
  from i0(1) have b: "\<not> completed (?ts ! 0)" by simp
  from i1 have c: "completed (?ts ! 1)" "line (?ts ! 1) = 3" by simp_all
  from i2 p3 have d: "task_text (?ts ! 2) = ''* [ ] star''" by (simp add: l3 tr)
  from h p1 p3 len a b c d show ?thesis by (intro conjI)
qed

section \<open>The poll cycle of the query bridge\<close>

subsection \<open>Updates along an enumeration\<close>

lemma foldl_update_other:
  "k \<notin> (\<lambda>x. fst (snd x)) ` set xs \<Longrightarrow>
   map_of (foldl (\<lambda>m (i, qid, q). AList.update qid (F i q) m) m xs) k = map_of m k"
  by (induction xs arbitrary: m) (auto simp: update_conv')

lemma foldl_update_hit:
  "distinct (map (\<lambda>x. fst (snd x)) xs) \<Longrightarrow> (i, k, v) \<in> set xs \<Longrightarrow>
   map_of (foldl (\<lambda>m (i, qid, q). AList.update qid (F i q) m) m xs) k = Some (F i v)"
proof (induction xs arbitrary: m)
  case Nil
  then show ?case by simp
next
  case (Cons x xs)
  show ?case
  proof (cases "x = (i, k, v)")
    case True
    with Cons.prems(1) have "k \<notin> (\<lambda>x. fst (snd x)) ` set xs" by auto
    from foldl_update_other[OF this, of F] show ?thesis
      by (simp add: True update_conv')
  next
    case False
    with Cons.prems have "(i, k, v) \<in> set xs" "distinct (map (\<lambda>x. fst (snd x)) xs)" by auto
    from Cons.IH[OF this(2) this(1)] show ?thesis by simp
  qed
qed

lemma foldl_update_keys:
  "(\<lambda>x. fst (snd x)) ` set xs \<subseteq> fst ` set m \<Longrightarrow>
   map fst (foldl (\<lambda>m (i, qid, q). AList.update qid (F i q) m) m xs) = map fst m"
proof (induction xs arbitrary: m)
  case Nil
  then show ?case by simp
next
  case (Cons x xs)
  obtain i k v where x: "x = (i, k, v)" by (cases x)
  from Cons.prems x have k: "k \<in> fst ` set m" by auto
  then have keys: "map fst (AList.update k (F i v) m) = map fst m"
    by (simp add: update_keys)
  then have "fst ` set (AList.update k (F i v) m) = fst ` set m"
    by (metis list.set_map)
  with Cons.prems have "(\<lambda>x. fst (snd x)) ` set xs \<subseteq> fst ` set (AList.update k (F i v) m)" by auto
  from Cons.IH[OF this] keys show ?case by (simp add: x)
qed

lemma snd_enumerate: "map snd (enumerate n xs) = xs"
  by (simp add: enumerate_eq_zip)

lemma keys_enumerate: "map (\<lambda>x. fst (snd x)) (enumerate n xs) = map fst xs"
  by (induction xs arbitrary: n) simp_all

lemma set_keys_enumerate: "(\<lambda>x. fst (snd x)) ` set (enumerate n xs) = fst ` set xs"
  using keys_enumerate[of n xs] by (metis list.set_map)

lemma in_enumerate: "p \<in> set xs \<Longrightarrow> \<exists>i < length xs. (i, p) \<in> set (enumerate 0 xs)"
proof -
  assume "p \<in> set xs"
  then obtain i where i: "i < length xs" "xs ! i = p" by (auto simp: in_set_conv_nth)
  then have "(i, p) \<in> set (enumerate 0 xs)" by (simp add: in_set_enumerate_eq)
  with i(1) show ?thesis by blast
qed

lemma enumerate_bound: "(i, p) \<in> set (enumerate 0 xs) \<Longrightarrow> i < length xs \<and> p \<in> set xs"
  by (auto simp: in_set_enumerate_eq)

lemma distinct_filter_keys: "distinct (map fst qs) \<Longrightarrow> distinct (map fst (filter P qs))"
  by (rule distinct_map_filter)

lemma map_of_distinct_in: "distinct (map fst qs) \<Longrightarrow> (k, v) \<in> set qs \<Longrightarrow> map_of qs k = Some v"
  by simp

text \<open>What a loop over the pending entries does to the query map.\<close>

lemma pending_loop:
  fixes F :: "nat \<Rightarrow> query_entry \<Rightarrow> query_entry" and qs :: "(string \<times> query_entry) list"
  assumes d: "distinct (map fst qs)"
  defines "ps \<equiv> filter is_pending_query qs"
  defines "qs' \<equiv> foldl (\<lambda>m (i, qid, q). AList.update qid (F i q) m) qs (enumerate 0 ps)"
  shows "map fst qs' = map fst qs"
    and "(k, v) \<in> set qs \<Longrightarrow> \<not> is_pending_query (k, v) \<Longrightarrow> (k, v) \<in> set qs'"
    and "(k, v) \<in> set qs \<Longrightarrow> is_pending_query (k, v) \<Longrightarrow> \<exists>i < length ps. map_of qs' k = Some (F i v)"
    and "(k, v') \<in> set qs' \<Longrightarrow> (k, v') \<in> set qs \<and> \<not> is_pending_query (k, v') \<or>
           (\<exists>i v. i < length ps \<and> (k, v) \<in> set qs \<and> is_pending_query (k, v) \<and> v' = F i v)"
proof -
  have sub: "(\<lambda>x. fst (snd x)) ` set (enumerate 0 ps) \<subseteq> fst ` set qs"
    unfolding set_keys_enumerate ps_def by auto
  show keys: "map fst qs' = map fst qs"
    unfolding qs'_def using sub by (rule foldl_update_keys)
  have d': "distinct (map fst qs')" using keys d by simp
  have dp: "distinct (map (\<lambda>x. fst (snd x)) (enumerate 0 ps))"
    unfolding keys_enumerate ps_def using d by (rule distinct_filter_keys)
  have hit: "map_of qs' k = Some (F i v)" if "(i, k, v) \<in> set (enumerate 0 ps)" for i k v
    unfolding qs'_def using dp that by (rule foldl_update_hit)
  have miss: "map_of qs' k = map_of qs k" if "k \<notin> fst ` set ps" for k
  proof -
    have "k \<notin> (\<lambda>x. fst (snd x)) ` set (enumerate 0 ps)"
      unfolding set_keys_enumerate using that .
    then show ?thesis unfolding qs'_def by (rule foldl_update_other)
  qed
  have pkey: "k \<in> fst ` set ps \<Longrightarrow> (k, v) \<in> set qs \<Longrightarrow> is_pending_query (k, v)" for k v
  proof -
    assume "k \<in> fst ` set ps" and kv: "(k, v) \<in> set qs"
    then obtain w where w: "(k, w) \<in> set ps" by auto
    then have "(k, w) \<in> set qs" "is_pending_query (k, w)" by (auto simp: ps_def)
    with d kv have "w = v" by (meson eq_key_imp_eq_value)
    with \<open>is_pending_query (k, w)\<close> show ?thesis by simp
  qed
  show "(k, v) \<in> set qs'" if kv: "(k, v) \<in> set qs" and np: "\<not> is_pending_query (k, v)"
  proof -
    from pkey kv np have "k \<notin> fst ` set ps" by blast
    from miss[OF this] d kv have "map_of qs' k = Some v" by simp
    then show ?thesis by (rule map_of_SomeD)
  qed
  show "\<exists>i < length ps. map_of qs' k = Some (F i v)" if kv: "(k, v) \<in> set qs" and p: "is_pending_query (k, v)"
  proof -
    from kv p have "(k, v) \<in> set ps" by (simp add: ps_def)
    from in_enumerate[OF this] obtain i where "i < length ps" "(i, k, v) \<in> set (enumerate 0 ps)" by blast
    with hit show ?thesis by blast
  qed
  show "(k, v') \<in> set qs \<and> \<not> is_pending_query (k, v') \<or>
           (\<exists>i v. i < length ps \<and> (k, v) \<in> set qs \<and> is_pending_query (k, v) \<and> v' = F i v)"
    if kv': "(k, v') \<in> set qs'"
  proof (cases "k \<in> fst ` set ps")
    case True
    then obtain v where v: "(k, v) \<in> set ps" by auto
    from in_enumerate[OF this] obtain i where i: "i < length ps" "(i, k, v) \<in> set (enumerate 0 ps)" by blast
    from hit[OF i(2)] d' kv' have "v' = F i v" by simp
    moreover from v have "(k, v) \<in> set qs" "is_pending_query (k, v)" by (auto simp: ps_def)
    ultimately show ?thesis using i(1) by blast
  next
    case False
    from miss[OF this] d' kv' have m: "map_of qs k = Some v'" by simp
    then have in_qs: "(k, v') \<in> set qs" by (rule map_of_SomeD)
    have "\<not> is_pending_query (k, v')"
    proof
      assume "is_pending_query (k, v')"
      with in_qs have "(k, v') \<in> set ps" by (simp add: ps_def)
      with False show False by force
    qed
    with in_qs show ?thesis by blast
  qed
qed

subsection \<open>The ways through a poll cycle\<close>

lemma cycle_absent:
  "dataviewQueries (b_readDb s) = None \<Longrightarrow> checkAndExecuteDataviewQueries h clock s = s"
  by (simp add: checkAndExecuteDataviewQueries_def Let_def)

lemma cycle_check:
  assumes "dataviewQueries (b_readDb s) = Some qs" and "check_pending qs"
  shows "checkAndExecuteDataviewQueries h clock s =
           b_writeDb ((b_readDb s)\<lparr>dataviewQueries := Some (AList.delete ''_check'' qs)\<rparr>)
             (checkDataviewAvailability h (clock 0) s)"
  using assms by (simp add: checkAndExecuteDataviewQueries_def Let_def)

lemma cycle_idle:
  assumes "dataviewQueries (b_readDb s) = Some qs" and "\<not> check_pending qs"
    and "filter is_pending_query qs = []"
  shows "checkAndExecuteDataviewQueries h clock s = s"
  using assms by (simp add: checkAndExecuteDataviewQueries_def Let_def)

lemma cycle_down:
  assumes "dataviewQueries (b_readDb s) = Some qs" and "\<not> check_pending qs"
    and "filter is_pending_query qs \<noteq> []" and "dataview_api h = None"
  shows "checkAndExecuteDataviewQueries h clock s =
           b_writeDb ((b_readDb s)\<lparr>dataviewQueries :=
                        Some (mark_failed h clock (filter is_pending_query qs) qs)\<rparr>) s"
  using assms by (simp add: checkAndExecuteDataviewQueries_def Let_def)

lemma cycle_up:
  assumes "dataviewQueries (b_readDb s) = Some qs" and "\<not> check_pending qs"
    and "filter is_pending_query qs \<noteq> []" and "dataview_api h = Some dv"
  shows "checkAndExecuteDataviewQueries h clock s =
           b_writeDb ((b_readDb s)\<lparr>dataviewQueries :=
              Some (cleanup (toISOString h (clock (length (filter is_pending_query qs)) - oneDay))
                      (execute_all h dv clock (filter is_pending_query qs) qs))\<rparr>) s"
  using assms by (simp add: checkAndExecuteDataviewQueries_def Let_def)

lemma queries_b_writeDb [simp]:
  "dataviewQueries (b_persisted (b_writeDb (d\<lparr>dataviewQueries := x\<rparr>) s)) = x"
  by (simp add: b_writeDb_def)

lemma status_execute_one: "status (execute_one dv now q) \<noteq> ''pending''"
  by (simp add: execute_one_def Let_def split: dv_outcome.split)

lemma expired_not_control: "expired c (k, v) \<Longrightarrow> \<not> startsWith_underscore k"
  by (simp add: expired_def)

lemma expired_timestamp:
  "expired c (k, v) \<Longrightarrow> \<exists>ts. timestamp v = Some ts \<and> ts \<noteq> [] \<and> ts < c"
  by (auto simp: expired_def split: option.splits)

lemma set_cleanup: "set (cleanup c qs) = {p \<in> set qs. \<not> expired c p}"
  by (auto simp: cleanup_def)

lemma distinct_cleanup: "distinct (map fst qs) \<Longrightarrow> distinct (map fst (cleanup c qs))"
  unfolding cleanup_def by (rule distinct_map_filter)


lemma b_readDb_persisted: "b_readDb s = b_persisted s"
  by (simp add: b_readDb_def)

text \<open>A settled entry without a timestamp survives one cycle, and the query map stays an object.\<close>

lemma cycle_keeps_settled:
  assumes r: "dataviewQueries (b_persisted s) = Some qs" and d: "distinct (map fst qs)"
    and q: "(qid, e) \<in> set qs" and t: "timestamp e = None" and st: "status e \<noteq> ''pending''"
  shows "\<exists>qs'. dataviewQueries (b_persisted (checkAndExecuteDataviewQueries h clock s)) = Some qs'
           \<and> distinct (map fst qs') \<and> (qid, e) \<in> set qs'"
proof -
  have r': "dataviewQueries (b_readDb s) = Some qs" using r by (simp add: b_readDb_def)
  have np: "\<not> is_pending_query (qid, e)" using st by (simp add: is_pending_query_def)
  have nx: "\<not> expired c (qid, e)" for c using t by (simp add: expired_def)
  show ?thesis
  proof (cases "check_pending qs")
    case True
    have "qid \<noteq> ''_check''"
    proof
      assume "qid = ''_check''"
      with d q have "map_of qs ''_check'' = Some e" by simp
      with True st show False by (simp add: check_pending_def)
    qed
    with q have "(qid, e) \<in> set (AList.delete ''_check'' qs)"
      by (simp add: AList.delete_eq)
    moreover have "distinct (map fst (AList.delete ''_check'' qs))"
      using d by (rule distinct_delete)
    ultimately show ?thesis by (simp add: cycle_check[OF r' True])
  next
    case nc: False
    show ?thesis
    proof (cases "filter is_pending_query qs = []")
      case True
      from cycle_idle[OF r' nc True] r d q show ?thesis by simp
    next
      case ne: False
      show ?thesis
      proof (cases "dataview_api h")
        case None
        let ?F = "\<lambda>i (queryData :: query_entry). queryData\<lparr>status := ''error'',
                           error := Some ''Dataview plugin not available'',
                           timestamp := Some (toISOString h (clock i))\<rparr>"
        let ?qs' = "mark_failed h clock (filter is_pending_query qs) qs"
        have mf: "?qs' = foldl (\<lambda>m (i, qid, q). AList.update qid (?F i q) m) qs
                           (enumerate 0 (filter is_pending_query qs))"
          by (simp add: mark_failed_def)
        have "map fst ?qs' = map fst qs" unfolding mf using d by (rule pending_loop(1))
        with d have "distinct (map fst ?qs')" by simp
        moreover have "(qid, e) \<in> set ?qs'" unfolding mf using d q np by (rule pending_loop(2))
        ultimately show ?thesis by (simp add: cycle_down[OF r' nc ne None])
      next
        case (Some dv)
        let ?F = "\<lambda>i. execute_one dv (toISOString h (clock i))"
        let ?pre = "execute_all h dv clock (filter is_pending_query qs) qs"
        let ?c = "toISOString h (clock (length (filter is_pending_query qs)) - oneDay)"
        have ea: "?pre = foldl (\<lambda>m (i, qid, q). AList.update qid (?F i q) m) qs
                           (enumerate 0 (filter is_pending_query qs))"
          by (simp add: execute_all_def)
        have "map fst ?pre = map fst qs" unfolding ea using d by (rule pending_loop(1))
        with d have "distinct (map fst ?pre)" by simp
        then have "distinct (map fst (cleanup ?c ?pre))" by (rule distinct_cleanup)
        moreover have "(qid, e) \<in> set ?pre" unfolding ea using d q np by (rule pending_loop(2))
        with nx have "(qid, e) \<in> set (cleanup ?c ?pre)" by (simp add: set_cleanup)
        ultimately show ?thesis by (simp add: cycle_up[OF r' nc ne Some])
      qed
    qed
  qed
qed

lemma run_cycles_snoc: "run_cycles (cs @ [(h, clock)]) s = checkAndExecuteDataviewQueries h clock (run_cycles cs s)"
  by (simp add: run_cycles_def)

lemma run_cycles_keep_settled:
  assumes r: "dataviewQueries (b_persisted s) = Some qs" and d: "distinct (map fst qs)"
    and q: "(qid, e) \<in> set qs" and t: "timestamp e = None" and st: "status e \<noteq> ''pending''"
  shows "\<exists>qs'. dataviewQueries (b_persisted (run_cycles cs s)) = Some qs'
           \<and> distinct (map fst qs') \<and> (qid, e) \<in> set qs'"
proof (induction cs rule: rev_induct)
  case Nil
  from r d q show ?case by (simp add: run_cycles_def)
next
  case (snoc c cs)
  obtain h clock where c: "c = (h, clock)" by (cases c)
  from snoc obtain qs1 where 1: "dataviewQueries (b_persisted (run_cycles cs s)) = Some qs1"
    "distinct (map fst qs1)" "(qid, e) \<in> set qs1" by blast
  from cycle_keeps_settled[OF 1 t st] show ?case
    unfolding c run_cycles_snoc .
qed


lemma check_cycle_persisted:
  assumes "dataviewQueries (b_readDb s) = Some qs" and "check_pending qs"
  shows "b_persisted (checkAndExecuteDataviewQueries h clock s) =
           (b_persisted s)\<lparr>dataviewQueries := Some (AList.delete ''_check'' qs)\<rparr>"
    and "b_written (checkAndExecuteDataviewQueries h clock s) =
           b_written s @ [(b_persisted s)\<lparr>dataviewAvailable := (dataview_api h \<noteq> None),
                                            lastChecked := toISOString h (clock 0)\<rparr>,
                          (b_persisted s)\<lparr>dataviewQueries := Some (AList.delete ''_check'' qs)\<rparr>]"
  by (simp_all add: cycle_check[OF assms] b_writeDb_def b_readDb_def checkDataviewAvailability_def Let_def)


text \<open>
  C4. A cycle that finds \<open>_check\<close> pending removes \<open>_check\<close> and processes no other
  entry, as claimed; but the document it persists last is the copy read before the
  probe, so \<open>dataviewAvailable\<close> and \<open>lastChecked\<close> end as they were. Here the
  engine is available and the probe is made at \<open>2024-01-02T01:00:00.000Z\<close>: the
  first write of the cycle stores both, the second write puts back \<open>False\<close> and
  \<open>2024-01-01T00:00:00.000Z\<close>.
\<close>

theorem check_request_loses_probe:
  "dataview_api demo_host_up \<noteq> None
   \<and> toISOString demo_host_up (demo_clock 0) = ''2024-01-02T01:00:00.000Z''
   \<and> check_pending [(''_check'', q_check)]
   \<and> dataviewQueries (b_persisted (checkAndExecuteDataviewQueries demo_host_up demo_clock
        (demo_bstore [(''_check'', q_check)]))) = Some []
   \<and> dataviewAvailable (b_persisted (checkAndExecuteDataviewQueries demo_host_up demo_clock
        (demo_bstore [(''_check'', q_check)]))) = False
   \<and> lastChecked (b_persisted (checkAndExecuteDataviewQueries demo_host_up demo_clock
        (demo_bstore [(''_check'', q_check)]))) = ''2024-01-01T00:00:00.000Z''
   \<and> map dataviewAvailable (b_written (checkAndExecuteDataviewQueries demo_host_up demo_clock
        (demo_bstore [(''_check'', q_check)]))) = [True, False]
   \<and> map lastChecked (b_written (checkAndExecuteDataviewQueries demo_host_up demo_clock
        (demo_bstore [(''_check'', q_check)]))) = [''2024-01-02T01:00:00.000Z'', ''2024-01-01T00:00:00.000Z'']"
  by code_simp

text \<open>
  C3, as stated, fails on all three early ways out of a cycle: the entry \<open>old\<close>, whose
  timestamp is more than 24 hours before the cycle, is still there after a cycle that
  handles \<open>_check\<close>, after a cycle without pending queries, and after a cycle that
  finds the engine unavailable.
\<close>

theorem purge_skipped_counterexample:
  "expired (toISOString demo_host_up (demo_clock 0 - oneDay)) (''old'', q_old)
   \<and> dataviewQueries (b_persisted (checkAndExecuteDataviewQueries demo_host_up demo_clock
        (demo_bstore [(''_check'', q_check), (''old'', q_old)]))) = Some [(''old'', q_old)]
   \<and> dataviewQueries (b_persisted (checkAndExecuteDataviewQueries demo_host_up demo_clock
        (demo_bstore [(''old'', q_old)]))) = Some [(''old'', q_old)]
   \<and> dataviewQueries (b_persisted (checkAndExecuteDataviewQueries demo_host_down demo_clock
        (demo_bstore [(''q1'', q_pending), (''old'', q_old)]))) =
       Some [(''q1'', q_pending\<lparr>status := ''error'', error := Some ''Dataview plugin not available'',
                                 timestamp := Some ''2024-01-02T01:00:00.000Z''\<rparr>),
             (''old'', q_old)]"
  by code_simp

text \<open>
  C3, amended. In a cycle that reaches the cleanup (\<open>_check\<close> is not pending, some
  query is pending, the engine is available) the persisted query map holds no entry that
  is no control entry and has a non-empty timestamp below the ISO string of the cleanup
  time minus 24 hours; an entry of the read document that was not pending and has such a
  timestamp is gone, and one that was not pending and has none is kept.
\<close>

theorem cleanup_after_execution:
  assumes r: "dataviewQueries (b_readDb s) = Some qs" and d: "distinct (map fst qs)"
    and nc: "\<not> check_pending qs" and ne: "filter is_pending_query qs \<noteq> []"
    and up: "dataview_api h = Some dv"
  shows "\<exists>qs'. dataviewQueries (b_persisted (checkAndExecuteDataviewQueries h clock s)) = Some qs'
           \<and> (\<forall>p \<in> set qs'. \<not> expired (toISOString h (clock (length (filter is_pending_query qs)) - oneDay)) p)
           \<and> (\<forall>p \<in> set qs. \<not> is_pending_query p
                  \<and> expired (toISOString h (clock (length (filter is_pending_query qs)) - oneDay)) p
                  \<longrightarrow> fst p \<notin> fst ` set qs')
           \<and> (\<forall>p \<in> set qs. \<not> is_pending_query p
                  \<and> \<not> expired (toISOString h (clock (length (filter is_pending_query qs)) - oneDay)) p
                  \<longrightarrow> p \<in> set qs')"
proof -
  let ?F = "\<lambda>i. execute_one dv (toISOString h (clock i))"
  let ?ps = "filter is_pending_query qs"
  let ?c = "toISOString h (clock (length ?ps) - oneDay)"
  let ?pre = "execute_all h dv clock ?ps qs"
  have ea: "?pre = foldl (\<lambda>m (i, qid, q). AList.update qid (?F i q) m) qs (enumerate 0 ?ps)"
    by (simp add: execute_all_def)
  have fin: "dataviewQueries (b_persisted (checkAndExecuteDataviewQueries h clock s)) = Some (cleanup ?c ?pre)"
    by (simp add: cycle_up[OF r nc ne up])
  have keys: "map fst ?pre = map fst qs"
    unfolding ea using d by (rule pending_loop(1))
  with d have dpre: "distinct (map fst ?pre)" by simp
  have keep: "x \<in> set ?pre" if "x \<in> set qs" "\<not> is_pending_query x" for x
  proof -
    obtain k v where x: "x = (k, v)" by (cases x)
    from that have "(k, v) \<in> set qs" "\<not> is_pending_query (k, v)" by (simp_all add: x)
    then show ?thesis unfolding x ea by (rule pending_loop(2)[OF d])
  qed
  have a: "\<forall>p \<in> set (cleanup ?c ?pre). \<not> expired ?c p"
    by (simp add: set_cleanup)
  have b: "fst x \<notin> fst ` set (cleanup ?c ?pre)" if "x \<in> set qs" "\<not> is_pending_query x" "expired ?c x" for x
  proof
    assume "fst x \<in> fst ` set (cleanup ?c ?pre)"
    then obtain y where y: "y \<in> set ?pre" "\<not> expired ?c y" "fst y = fst x"
      by (auto simp: set_cleanup)
    from keep[OF that(1,2)] have "x \<in> set ?pre" .
    with y(1,3) dpre have "y = x"
      by (metis eq_key_imp_eq_value prod.collapse)
    with y(2) that(3) show False by simp
  qed
  have c: "x \<in> set (cleanup ?c ?pre)" if "x \<in> set qs" "\<not> is_pending_query x" "\<not> expired ?c x" for x
    using keep[OF that(1,2)] that(3) by (simp add: set_cleanup)
  from fin a b c show ?thesis by blast
qed


theorem cleanup_after_execution_witness:
  "dataviewQueries (b_readDb (demo_bstore demo_queries)) = Some demo_queries
   \<and> distinct (map fst demo_queries)
   \<and> \<not> check_pending demo_queries
   \<and> filter is_pending_query demo_queries \<noteq> []
   \<and> dataview_api demo_host_up = Some demo_dv
   \<and> (''old'', q_old) \<in> set demo_queries
   \<and> \<not> is_pending_query (''old'', q_old)
   \<and> expired (toISOString demo_host_up (demo_clock (length (filter is_pending_query demo_queries)) - oneDay)) (''old'', q_old)
   \<and> (\<exists>qs'. dataviewQueries (b_persisted (checkAndExecuteDataviewQueries demo_host_up demo_clock
                (demo_bstore demo_queries))) = Some qs'
              \<and> ''old'' \<notin> fst ` set qs' \<and> (''bare'', q_bare) \<in> set qs')"
proof -
  have h1: "dataviewQueries (b_readDb (demo_bstore demo_queries)) = Some demo_queries"
    by (simp add: b_readDb_def demo_bstore_def)
  have h2: "distinct (map fst demo_queries)" by code_simp
  have h3: "\<not> check_pending demo_queries" by code_simp
  have h4: "filter is_pending_query demo_queries \<noteq> []" by code_simp
  have h5: "dataview_api demo_host_up = Some demo_dv" by (simp add: demo_host_up_def)
  have o1: "(''old'', q_old) \<in> set demo_queries" by (simp add: demo_queries_def)
  have o2: "\<not> is_pending_query (''old'', q_old)" by code_simp
  have o3: "expired (toISOString demo_host_up (demo_clock (length (filter is_pending_query demo_queries)) - oneDay)) (''old'', q_old)"
    by code_simp
  have b1: "(''bare'', q_bare) \<in> set demo_queries" by (simp add: demo_queries_def)
  have b2: "\<not> is_pending_query (''bare'', q_bare)" by code_simp
  have b3: "\<not> expired (toISOString demo_host_up (demo_clock (length (filter is_pending_query demo_queries)) - oneDay)) (''bare'', q_bare)"
    by code_simp
  from cleanup_after_execution[OF h1 h2 h3 h4 h5, of demo_clock] o1 o2 o3 b1 b2 b3
  have "\<exists>qs'. dataviewQueries (b_persisted (checkAndExecuteDataviewQueries demo_host_up demo_clock
                (demo_bstore demo_queries))) = Some qs'
              \<and> ''old'' \<notin> fst ` set qs' \<and> (''bare'', q_bare) \<in> set qs'"
    by fastforce
  with h1 h2 h3 h4 h5 o1 o2 o3 show ?thesis by (intro conjI)
qed

text \<open>
  C5, as stated, fails when \<open>_check\<close> is pending too: the cycle handles the control
  entry and stops, and the pending query \<open>q1\<close> is still pending although the engine
  is unavailable.
\<close>

theorem unavailable_check_counterexample:
  "dataview_api demo_host_down = None
   \<and> is_pending_query (''q1'', q_pending)
   \<and> dataviewQueries (b_persisted (checkAndExecuteDataviewQueries demo_host_down demo_clock
        (demo_bstore [(''_check'', q_check), (''q1'', q_pending)]))) = Some [(''q1'', q_pending)]"
  by code_simp

text \<open>
  C5, amended. In a cycle in which \<open>_check\<close> is not pending and the engine is
  unavailable, every pending entry that is no control entry ends with status
  \<open>error\<close>, the message \<open>Dataview plugin not available\<close> and the ISO string of a
  clock reading of this cycle as timestamp, its other fields kept; no entry that is no
  control entry is pending in the persisted document.
\<close>

theorem unavailable_marks_pending_failed:
  assumes r: "dataviewQueries (b_readDb s) = Some qs" and d: "distinct (map fst qs)"
    and nc: "\<not> check_pending qs" and down: "dataview_api h = None"
    and q: "(qid, q) \<in> set qs" and p: "is_pending_query (qid, q)"
  shows "\<exists>qs'. dataviewQueries (b_persisted (checkAndExecuteDataviewQueries h clock s)) = Some qs'
           \<and> (\<exists>i < length (filter is_pending_query qs).
                 map_of qs' qid = Some (q\<lparr>status := ''error'',
                                           error := Some ''Dataview plugin not available'',
                                           timestamp := Some (toISOString h (clock i))\<rparr>))
           \<and> (\<forall>p \<in> set qs'. \<not> is_pending_query p)"
proof -
  let ?F = "\<lambda>i (queryData :: query_entry). queryData\<lparr>status := ''error'',
                           error := Some ''Dataview plugin not available'',
                           timestamp := Some (toISOString h (clock i))\<rparr>"
  let ?ps = "filter is_pending_query qs"
  let ?qs' = "mark_failed h clock ?ps qs"
  have mf: "?qs' = foldl (\<lambda>m (i, qid, q). AList.update qid (?F i q) m) qs (enumerate 0 ?ps)"
    by (simp add: mark_failed_def)
  from q p have ne: "?ps \<noteq> []" by (auto simp: filter_empty_conv)
  have fin: "dataviewQueries (b_persisted (checkAndExecuteDataviewQueries h clock s)) = Some ?qs'"
    by (simp add: cycle_down[OF r nc ne down])
  have hit: "\<exists>i < length ?ps. map_of ?qs' qid = Some (?F i q)"
    unfolding mf using d q p by (rule pending_loop(3))
  have none: "\<not> is_pending_query x" if "x \<in> set ?qs'" for x
  proof -
    obtain k v' where x: "x = (k, v')" by (cases x)
    from that x have "(k, v') \<in> set (foldl (\<lambda>m (i, qid, q). AList.update qid (?F i q) m) qs (enumerate 0 ?ps))"
      by (simp only: mf)
    from pending_loop(4)[OF d this] show ?thesis
      unfolding x by (auto simp: is_pending_query_def)
  qed
  from fin hit none show ?thesis by blast
qed


theorem unavailable_marks_pending_failed_witness:
  "dataviewQueries (b_readDb (demo_bstore demo_queries)) = Some demo_queries
   \<and> distinct (map fst demo_queries)
   \<and> \<not> check_pending demo_queries
   \<and> dataview_api demo_host_down = None
   \<and> (''q1'', q_pending) \<in> set demo_queries
   \<and> is_pending_query (''q1'', q_pending)
   \<and> (\<exists>qs'. dataviewQueries (b_persisted (checkAndExecuteDataviewQueries demo_host_down demo_clock
                (demo_bstore demo_queries))) = Some qs'
          \<and> (\<exists>i < length (filter is_pending_query demo_queries).
                 map_of qs' ''q1'' = Some (q_pending\<lparr>status := ''error'',
                                           error := Some ''Dataview plugin not available'',
                                           timestamp := Some (toISOString demo_host_down (demo_clock i))\<rparr>))
          \<and> (\<forall>p \<in> set qs'. \<not> is_pending_query p))"
proof -
  have h1: "dataviewQueries (b_readDb (demo_bstore demo_queries)) = Some demo_queries"
    by (simp add: b_readDb_def demo_bstore_def)
  have h2: "distinct (map fst demo_queries)" by code_simp
  have h3: "\<not> check_pending demo_queries" by code_simp
  have h4: "dataview_api demo_host_down = None" by (simp add: demo_host_down_def)
  have h5: "(''q1'', q_pending) \<in> set demo_queries" by (simp add: demo_queries_def)
  have h6: "is_pending_query (''q1'', q_pending)" by code_simp
  from h1 h2 h3 h4 h5 h6 unavailable_marks_pending_failed[OF h1 h2 h3 h4 h5 h6, of demo_clock]
  show ?thesis by (intro conjI)
qed

text \<open>
  C6. When the purge of a cycle runs, every entry it removes has a status other than
  \<open>pending\<close>: an entry that is still pending at that moment is not removed. (The
  pending queries of the cycle have been executed just before, each one ending in
  \<open>success\<close> or \<open>error\<close>.)
\<close>

theorem purge_removes_no_pending:
  assumes r: "dataviewQueries (b_readDb s) = Some qs" and d: "distinct (map fst qs)"
    and nc: "\<not> check_pending qs" and ne: "filter is_pending_query qs \<noteq> []"
    and up: "dataview_api h = Some dv"
  shows "dataviewQueries (b_persisted (checkAndExecuteDataviewQueries h clock s)) =
           Some (cleanup (toISOString h (clock (length (filter is_pending_query qs)) - oneDay))
                   (execute_all h dv clock (filter is_pending_query qs) qs))
         \<and> (\<forall>p \<in> set (execute_all h dv clock (filter is_pending_query qs) qs).
              p \<notin> set (cleanup (toISOString h (clock (length (filter is_pending_query qs)) - oneDay))
                         (execute_all h dv clock (filter is_pending_query qs) qs))
              \<longrightarrow> status (snd p) \<noteq> ''pending'')"
proof -
  let ?F = "\<lambda>i. execute_one dv (toISOString h (clock i))"
  let ?ps = "filter is_pending_query qs"
  let ?c = "toISOString h (clock (length ?ps) - oneDay)"
  let ?pre = "execute_all h dv clock ?ps qs"
  have ea: "?pre = foldl (\<lambda>m (i, qid, q). AList.update qid (?F i q) m) qs (enumerate 0 ?ps)"
    by (simp add: execute_all_def)
  have fin: "dataviewQueries (b_persisted (checkAndExecuteDataviewQueries h clock s)) = Some (cleanup ?c ?pre)"
    by (simp add: cycle_up[OF r nc ne up])
  have "status (snd x) \<noteq> ''pending''" if "x \<in> set ?pre" "x \<notin> set (cleanup ?c ?pre)" for x
  proof -
    obtain k v' where x: "x = (k, v')" by (cases x)
    from that have e: "expired ?c (k, v')" by (simp add: set_cleanup x)
    then have nctl: "\<not> startsWith_underscore k" by (rule expired_not_control)
    from that(1) have "(k, v') \<in> set (foldl (\<lambda>m (i, qid, q). AList.update qid (?F i q) m) qs (enumerate 0 ?ps))"
      unfolding x by (simp only: ea)
    from pending_loop(4)[OF d this]
    have "\<not> is_pending_query (k, v') \<or> (\<exists>i v. v' = ?F i v)" by blast
    then show ?thesis
    proof
      assume "\<not> is_pending_query (k, v')"
      with nctl show ?thesis by (simp add: is_pending_query_def x)
    next
      assume "\<exists>i v. v' = ?F i v"
      then show ?thesis using status_execute_one by (auto simp: x)
    qed
  qed
  with fin show ?thesis by blast
qed

theorem purge_removes_no_pending_witness:
  "dataviewQueries (b_readDb (demo_bstore demo_queries)) = Some demo_queries
   \<and> distinct (map fst demo_queries)
   \<and> \<not> check_pending demo_queries
   \<and> filter is_pending_query demo_queries \<noteq> []
   \<and> dataview_api demo_host_up = Some demo_dv
   \<and> (''old'', q_old) \<in> set (execute_all demo_host_up demo_dv demo_clock (filter is_pending_query demo_queries) demo_queries)
   \<and> (''old'', q_old) \<notin> set (cleanup (toISOString demo_host_up (demo_clock (length (filter is_pending_query demo_queries)) - oneDay))
                   (execute_all demo_host_up demo_dv demo_clock (filter is_pending_query demo_queries) demo_queries))
   \<and> status (snd (''old'', q_old)) \<noteq> ''pending''"
proof -
  have h1: "dataviewQueries (b_readDb (demo_bstore demo_queries)) = Some demo_queries"
    by (simp add: b_readDb_def demo_bstore_def)
  have h2: "distinct (map fst demo_queries)" by code_simp
  have h3: "\<not> check_pending demo_queries" by code_simp
  have h4: "filter is_pending_query demo_queries \<noteq> []" by code_simp
  have h5: "dataview_api demo_host_up = Some demo_dv" by (simp add: demo_host_up_def)
  have o1: "(''old'', q_old) \<in> set (execute_all demo_host_up demo_dv demo_clock (filter is_pending_query demo_queries) demo_queries)"
    by code_simp
  have o2: "(''old'', q_old) \<notin> set (cleanup (toISOString demo_host_up (demo_clock (length (filter is_pending_query demo_queries)) - oneDay))
                   (execute_all demo_host_up demo_dv demo_clock (filter is_pending_query demo_queries) demo_queries))"
    by code_simp
  from purge_removes_no_pending[OF h1 h2 h3 h4 h5, of demo_clock] o1 o2
  have "status (snd (''old'', q_old)) \<noteq> ''pending''" by blast
  with h1 h2 h3 h4 h5 o1 o2 show ?thesis by (intro conjI)
qed

text \<open>
  C9. The purge removes an entry only if it is no control entry and its timestamp is
  there, not empty and below the cutoff string in the order of strings; an entry without
  a timestamp passes every purge. Such an entry that is no control entry and is not
  pending (so that no cycle gives it a timestamp) is in the persisted document, unchanged,
  after any number of poll cycles.
\<close>

theorem no_timestamp_never_purged:
  "(\<forall>p \<in> set qs0. p \<notin> set (cleanup oneDayAgo qs0) \<longrightarrow>
       \<not> startsWith_underscore (fst p)
       \<and> (\<exists>ts. timestamp (snd p) = Some ts \<and> ts \<noteq> [] \<and> ts < oneDayAgo))
   \<and> (\<forall>p \<in> set qs0. timestamp (snd p) = None \<longrightarrow> p \<in> set (cleanup oneDayAgo qs0))
   \<and> (dataviewQueries (b_persisted s) = Some qs \<and> distinct (map fst qs)
        \<and> (qid, e) \<in> set qs \<and> \<not> startsWith_underscore qid
        \<and> timestamp e = None \<and> status e \<noteq> ''pending''
       \<longrightarrow> (\<exists>qs'. dataviewQueries (b_persisted (run_cycles cs s)) = Some qs' \<and> (qid, e) \<in> set qs'))"
proof (intro conjI ballI impI)
  fix p assume "p \<in> set qs0" "p \<notin> set (cleanup oneDayAgo qs0)"
  then have e: "expired oneDayAgo (fst p, snd p)" by (simp add: set_cleanup)
  from expired_not_control[OF e] show "\<not> startsWith_underscore (fst p)" .
  from expired_timestamp[OF e] show "\<exists>ts. timestamp (snd p) = Some ts \<and> ts \<noteq> [] \<and> ts < oneDayAgo" .
next
  fix p assume "p \<in> set qs0" "timestamp (snd p) = None"
  then show "p \<in> set (cleanup oneDayAgo qs0)"
    by (auto simp: set_cleanup expired_def split: prod.splits)
next
  assume "dataviewQueries (b_persisted s) = Some qs \<and> distinct (map fst qs)
        \<and> (qid, e) \<in> set qs \<and> \<not> startsWith_underscore qid
        \<and> timestamp e = None \<and> status e \<noteq> ''pending''"
  then have "dataviewQueries (b_persisted s) = Some qs" "distinct (map fst qs)" "(qid, e) \<in> set qs"
    "timestamp e = None" "status e \<noteq> ''pending''" by simp_all
  from run_cycles_keep_settled[OF this, of cs]
  show "\<exists>qs'. dataviewQueries (b_persisted (run_cycles cs s)) = Some qs' \<and> (qid, e) \<in> set qs'"
    by blast
qed


theorem no_timestamp_never_purged_witness:
  "(''old'', q_old) \<in> set demo_queries
   \<and> (''old'', q_old) \<notin> set (cleanup ''2024-01-01T01:00:00.000Z'' demo_queries)
   \<and> timestamp (snd (''old'', q_old)) = Some ''2024-01-01T00:00:00.000Z''
   \<and> (''bare'', q_bare) \<in> set demo_queries
   \<and> timestamp (snd (''bare'', q_bare)) = None
   \<and> (''bare'', q_bare) \<in> set (cleanup ''2024-01-01T01:00:00.000Z'' demo_queries)
   \<and> dataviewQueries (b_persisted (demo_bstore demo_queries)) = Some demo_queries
   \<and> distinct (map fst demo_queries)
   \<and> \<not> startsWith_underscore ''bare''
   \<and> status q_bare \<noteq> ''pending''
   \<and> (\<exists>qs'. dataviewQueries (b_persisted (run_cycles
            [(demo_host_up, demo_clock), (demo_host_down, demo_clock), (demo_host_up, demo_clock)]
            (demo_bstore demo_queries))) = Some qs' \<and> (''bare'', q_bare) \<in> set qs')"
proof -
  note t = no_timestamp_never_purged[where ?qs0.0 = demo_queries and oneDayAgo = "''2024-01-01T01:00:00.000Z''"
      and s = "demo_bstore demo_queries" and qs = demo_queries and qid = "''bare''" and e = q_bare
      and cs = "[(demo_host_up, demo_clock), (demo_host_down, demo_clock), (demo_host_up, demo_clock)]"]
  have o1: "(''old'', q_old) \<in> set demo_queries" by (simp add: demo_queries_def)
  have o2: "(''old'', q_old) \<notin> set (cleanup ''2024-01-01T01:00:00.000Z'' demo_queries)" by code_simp
  have b1: "(''bare'', q_bare) \<in> set demo_queries" by (simp add: demo_queries_def)
  have b2: "timestamp (snd (''bare'', q_bare)) = None" by (simp add: q_bare_def)
  have h1: "dataviewQueries (b_persisted (demo_bstore demo_queries)) = Some demo_queries"
    by (simp add: demo_bstore_def)
  have h2: "distinct (map fst demo_queries)" by code_simp
  have h3: "\<not> startsWith_underscore ''bare''" by code_simp
  have h4: "status q_bare \<noteq> ''pending''" by code_simp
  have o3: "timestamp (snd (''old'', q_old)) = Some ''2024-01-01T00:00:00.000Z''"
    by (simp add: q_old_def)
  from t b1 b2 have b3: "(''bare'', q_bare) \<in> set (cleanup ''2024-01-01T01:00:00.000Z'' demo_queries)"
    by blast
  from t h1 h2 b1 b2 h3 h4
  have c: "\<exists>qs'. dataviewQueries (b_persisted (run_cycles
            [(demo_host_up, demo_clock), (demo_host_down, demo_clock), (demo_host_up, demo_clock)]
            (demo_bstore demo_queries))) = Some qs' \<and> (''bare'', q_bare) \<in> set qs'"
    by simp
  from o1 o2 o3 b1 b2 b3 h1 h2 h3 h4 c show ?thesis by (intro conjI)
qed

end
